theory Spec2Isabelle
  imports Complex_Main
begin

section \<open>SmartBookmarks: the indexing pipeline and the vector store of bookmarks/utils.py\<close>

text \<open>
  The development follows \<^verbatim>\<open>src/bookmarks/utils.py\<close>. The third-party libraries the
  module calls (FAISS, NumPy, sentence-transformers, transformers, requests, the Django
  ORM) are not part of the repository; each is represented by the part of its documented
  behaviour that the module relies on. A Python float is a real number here (the
  infinities and NaN of Python's own floats are not represented); the 32-bit floats that
  NumPy and FAISS compute with are modelled with their rounding, infinities and NaN.
\<close>

subsection \<open>Python values\<close>

datatype error = AssertionError

text \<open>\<^verbatim>\<open>str(n)\<close> for an integer: its decimal numeral, with a minus sign when negative.\<close>

definition digit_char :: "nat \<Rightarrow> char" where
  "digit_char n = char_of (48 + n)"

fun str_nat :: "nat \<Rightarrow> string" where
  "str_nat n =
     (if n < 10 then [digit_char n] else str_nat (n div 10) @ [digit_char (n mod 10)])"

declare str_nat.simps [simp del]

definition str_int :: "int \<Rightarrow> string" where
  "str_int i = (if i < 0 then CHR ''-'' # str_nat (nat (- i)) else str_nat (nat i))"

text \<open>Reading a decimal numeral back; used only to show that \<open>str_nat\<close> is injective.\<close>

definition nat_of_str :: "string \<Rightarrow> nat" where
  "nat_of_str s = foldl (\<lambda>a c. 10 * a + (of_char c - 48)) 0 s"

text \<open>
  \<^verbatim>\<open>sep.join(chunks)\<close> and \<^verbatim>\<open>s.strip()\<close>. A \<open>char\<close> stands for a code point below 256;
  \<open>is_space\<close> lists the code points in that range for which \<^verbatim>\<open>str.isspace\<close> holds.
\<close>

fun join :: "string \<Rightarrow> string list \<Rightarrow> string" where
  "join sep [] = []"
| "join sep [x] = x"
| "join sep (x # y # ys) = x @ sep @ join sep (y # ys)"

definition is_space :: "char \<Rightarrow> bool" where
  "is_space c = ((of_char c :: nat) \<in> set [9, 10, 11, 12, 13, 28, 29, 30, 31, 32, 133, 160])"

definition strip :: "string \<Rightarrow> string" where
  "strip s = rev (dropWhile is_space (rev (dropWhile is_space s)))"

subsection \<open>32-bit floats (NumPy and FAISS)\<close>

text \<open>
  A value of \<^verbatim>\<open>float32\<close> is a finite number, an infinity or a NaN; the sign of zero is not
  kept. \<open>round32\<close> rounds a real to the nearest number with a 24-bit significand, ties
  to the even significand, with the exponent bounded below (subnormal numbers) and not
  above; \<open>float32_of\<close>, the conversion of \<^verbatim>\<open>np.asarray(..., dtype="float32")\<close> and the
  rounding of every arithmetic result, gives an infinity from half an ulp above the
  largest finite number, \<open>2^128 - 2^104\<close>, on.
\<close>

datatype float32 = F32 real | PosInf | NegInf | NaN

definition pow2 :: "int \<Rightarrow> real" where
  "pow2 e = (if 0 \<le> e then 2 ^ nat e else 1 / 2 ^ nat (- e))"

definition round_half_even :: "real \<Rightarrow> int" where
  "round_half_even y =
     (let f = \<lfloor>y\<rfloor>
      in if y - of_int f < 1 / 2 then f
         else if 1 / 2 < y - of_int f then f + 1
         else if even f then f else f + 1)"

definition round32 :: "real \<Rightarrow> real" where
  "round32 x =
     (if x = 0 then 0
      else (let e = max \<lfloor>log 2 \<bar>x\<bar>\<rfloor> (- 126); q = pow2 (e - 23)
            in q * of_int (round_half_even (x / q))))"

definition float32_of :: "real \<Rightarrow> float32" where
  "float32_of x =
     (if 2 ^ 128 - 2 ^ 103 \<le> x then PosInf
      else if x \<le> - (2 ^ 128 - 2 ^ 103) then NegInf
      else F32 (round32 x))"

definition max_float32 :: real where
  "max_float32 = 2 ^ 128 - 2 ^ 104"

text \<open>The reals that the conversion takes to a finite \<^verbatim>\<open>float32\<close>.\<close>

definition fits_float32 :: "real \<Rightarrow> bool" where
  "fits_float32 x = (\<bar>x\<bar> < 2 ^ 128 - 2 ^ 103)"

definition is_finite32 :: "float32 \<Rightarrow> bool" where
  "is_finite32 z = (case z of F32 r \<Rightarrow> True | PosInf \<Rightarrow> False | NegInf \<Rightarrow> False | NaN \<Rightarrow> False)"

text \<open>A value that is neither negative nor minus infinity.\<close>

definition nonneg32 :: "float32 \<Rightarrow> bool" where
  "nonneg32 z = (case z of F32 r \<Rightarrow> 0 \<le> r | PosInf \<Rightarrow> True | NegInf \<Rightarrow> False | NaN \<Rightarrow> True)"

text \<open>Subtraction, addition and the square \<^verbatim>\<open>tmp * tmp\<close>, as IEEE 754 has them.\<close>

fun f32_sub :: "float32 \<Rightarrow> float32 \<Rightarrow> float32" where
  "f32_sub (F32 a) (F32 b) = float32_of (a - b)"
| "f32_sub NaN y = NaN"
| "f32_sub x NaN = NaN"
| "f32_sub PosInf PosInf = NaN"
| "f32_sub NegInf NegInf = NaN"
| "f32_sub PosInf y = PosInf"
| "f32_sub NegInf y = NegInf"
| "f32_sub x PosInf = NegInf"
| "f32_sub x NegInf = PosInf"

fun f32_add :: "float32 \<Rightarrow> float32 \<Rightarrow> float32" where
  "f32_add (F32 a) (F32 b) = float32_of (a + b)"
| "f32_add NaN y = NaN"
| "f32_add x NaN = NaN"
| "f32_add PosInf NegInf = NaN"
| "f32_add NegInf PosInf = NaN"
| "f32_add PosInf y = PosInf"
| "f32_add NegInf y = NegInf"
| "f32_add x PosInf = PosInf"
| "f32_add x NegInf = NegInf"

fun f32_sqr :: "float32 \<Rightarrow> float32" where
  "f32_sqr (F32 a) = float32_of (a * a)"
| "f32_sqr PosInf = PosInf"
| "f32_sqr NegInf = PosInf"
| "f32_sqr NaN = NaN"

subsection \<open>The FAISS flat L2 index (library behaviour)\<close>

text \<open>
  \<^verbatim>\<open>faiss.IndexFlatL2(d)\<close> stores the added vectors in insertion order; \<^verbatim>\<open>ntotal\<close> is
  their number. \<^verbatim>\<open>add\<close> and \<^verbatim>\<open>search\<close> assert that the rows have the index's
  dimension, and \<^verbatim>\<open>search\<close> asserts \<^verbatim>\<open>k > 0\<close>.

  The distance of the query to a stored vector is the sum of the squared differences of
  the components, computed in \<^verbatim>\<open>float32\<close>; \<open>l2sqr\<close> adds the terms from left to right
  (the vectorised kernels of the library may add them in another order). \<^verbatim>\<open>search\<close>
  keeps the \<open>k\<close> smallest distances in a heap whose entries start at the largest finite
  \<^verbatim>\<open>float32\<close> with the label \<open>-1\<close>, and a stored vector replaces an entry only when its
  distance is smaller: a vector whose distance is a NaN, an infinity or that largest
  number is never returned. The result is the labels of the vectors kept, nearest
  first, followed by the labels \<open>-1\<close> left over. The library leaves the order of
  equidistant vectors open; here the earlier position comes first.

  The module always passes a matrix of one row (\<^verbatim>\<open>np.asarray([emb])\<close>), so \<open>index_add\<close>
  and \<open>index_search\<close> take that row, and \<open>index_search\<close> returns \<^verbatim>\<open>idxs[0]\<close>.
\<close>

type_synonym vec = "real list"

record flat_index =
  index_d :: nat
  xb :: "float32 list list"

definition IndexFlatL2 :: "nat \<Rightarrow> flat_index" where
  "IndexFlatL2 n = \<lparr>index_d = n, xb = []\<rparr>"

definition ntotal :: "flat_index \<Rightarrow> nat" where
  "ntotal ix = length (xb ix)"

definition l2sqr :: "float32 list \<Rightarrow> float32 list \<Rightarrow> float32" where
  "l2sqr x y = foldl (\<lambda>res (a, b). f32_add res (f32_sqr (f32_sub a b))) (F32 0) (zip x y)"

definition kept :: "float32 \<Rightarrow> bool" where
  "kept dis = (case dis of F32 r \<Rightarrow> r < max_float32 | PosInf \<Rightarrow> False | NegInf \<Rightarrow> False
               | NaN \<Rightarrow> False)"

definition finite_value :: "float32 \<Rightarrow> real" where
  "finite_value dis = (case dis of F32 r \<Rightarrow> r | PosInf \<Rightarrow> 0 | NegInf \<Rightarrow> 0 | NaN \<Rightarrow> 0)"

definition index_add :: "flat_index \<Rightarrow> float32 list \<Rightarrow> error + flat_index" where
  "index_add ix v =
     (if length v \<noteq> index_d ix then Inl AssertionError else Inr (ix\<lparr>xb := xb ix @ [v]\<rparr>))"

definition ranked :: "flat_index \<Rightarrow> float32 list \<Rightarrow> nat list" where
  "ranked ix q =
     sort_key (\<lambda>i. finite_value (l2sqr q (xb ix ! i)))
       (filter (\<lambda>i. kept (l2sqr q (xb ix ! i))) [0..<ntotal ix])"

definition index_search :: "flat_index \<Rightarrow> float32 list \<Rightarrow> int \<Rightarrow> error + int list" where
  "index_search ix q k =
     (if length q \<noteq> index_d ix then Inl AssertionError
      else if k \<le> 0 then Inl AssertionError
      else Inr (map int (take (nat k) (ranked ix q))
                @ replicate (nat k - length (ranked ix q)) (- 1)))"

subsection \<open>The two files of the vector store\<close>

text \<open>
  \<^verbatim>\<open>FAISS_INDEX_FILE\<close> holds what \<^verbatim>\<open>faiss.write_index\<close> wrote and \<^verbatim>\<open>faiss.read_index\<close>
  gives back; \<^verbatim>\<open>VECTOR_MAP_FILE\<close> holds a JSON object from strings to integers, which
  \<^verbatim>\<open>json.dump\<close> and \<^verbatim>\<open>json.load\<close> carry over unchanged. \<open>None\<close> is a file that does
  not exist. Reading and writing the files is taken to succeed: a run in which
  \<^verbatim>\<open>_save_faiss\<close> raises after it has written the index file and before it has written
  the mapping is not represented.
\<close>

record disk =
  index_file :: "flat_index option"
  map_file :: "(string \<rightharpoonup> int) option"

definition fresh_disk :: disk where
  "fresh_disk = \<lparr>index_file = None, map_file = None\<rparr>"

definition load_faiss :: "disk \<Rightarrow> flat_index option \<times> (string \<rightharpoonup> int)" where
  "load_faiss dsk =
     (index_file dsk, (case map_file dsk of None \<Rightarrow> Map.empty | Some m \<Rightarrow> m))"

definition save_faiss :: "flat_index option \<Rightarrow> (string \<rightharpoonup> int) \<Rightarrow> disk \<Rightarrow> disk" where
  "save_faiss index vec_map dsk =
     \<lparr>index_file = (case index of None \<Rightarrow> index_file dsk | Some ix \<Rightarrow> Some ix),
      map_file = Some vec_map\<rparr>"

definition add_embedding_to_index :: "int \<Rightarrow> vec \<Rightarrow> disk \<Rightarrow> error + disk" where
  "add_embedding_to_index bookmark_id emb dsk =
     (case load_faiss dsk of (index, vec_map) \<Rightarrow>
        let vec = map float32_of emb;
            index0 = (case index of None \<Rightarrow> IndexFlatL2 (length vec) | Some ix \<Rightarrow> ix);
            pos = ntotal index0
        in (case index_add index0 vec of
              Inl e \<Rightarrow> Inl e
            | Inr index1 \<Rightarrow>
                Inr (save_faiss (Some index1)
                       (vec_map(str_int (int pos) \<mapsto> bookmark_id)) dsk)))"

text \<open>
  Lines 134 to 138 of \<^verbatim>\<open>search_embeddings\<close>: the search on the pair that
  \<^verbatim>\<open>_load_faiss\<close> returned.
\<close>

definition search_loaded ::
  "flat_index option \<Rightarrow> (string \<rightharpoonup> int) \<Rightarrow> vec \<Rightarrow> int \<Rightarrow> error + int list" where
  "search_loaded index vec_map query_vec k =
     (case index of
        None \<Rightarrow> Inr []
      | Some ix \<Rightarrow>
          if ntotal ix = 0 then Inr []
          else (case index_search ix (map float32_of query_vec) (min k (int (ntotal ix))) of
                  Inl e \<Rightarrow> Inl e
                | Inr idxs \<Rightarrow> Inr (List.map_filter (\<lambda>i. vec_map (str_int i)) idxs)))"

definition search_embeddings :: "vec \<Rightarrow> int \<Rightarrow> disk \<Rightarrow> error + int list" where
  "search_embeddings query_vec k dsk =
     (case load_faiss dsk of (index, vec_map) \<Rightarrow> search_loaded index vec_map query_vec k)"

text \<open>A run of calls of \<^verbatim>\<open>add_embedding_to_index\<close> that all return.\<close>

fun add_all :: "(int \<times> vec) list \<Rightarrow> disk \<Rightarrow> error + disk" where
  "add_all [] dsk = Inr dsk"
| "add_all ((bookmark_id, emb) # rest) dsk =
     (case add_embedding_to_index bookmark_id emb dsk of
        Inl e \<Rightarrow> Inl e
      | Inr dsk' \<Rightarrow> add_all rest dsk')"

text \<open>What the two files hold, read off a disk state.\<close>

definition stored_vectors :: "disk \<Rightarrow> float32 list list" where
  "stored_vectors dsk = (case index_file dsk of None \<Rightarrow> [] | Some ix \<Rightarrow> xb ix)"

definition ntotal_of :: "disk \<Rightarrow> nat" where
  "ntotal_of dsk = (case index_file dsk of None \<Rightarrow> 0 | Some ix \<Rightarrow> ntotal ix)"

definition vec_map_of :: "disk \<Rightarrow> (string \<rightharpoonup> int)" where
  "vec_map_of dsk = snd (load_faiss dsk)"

text \<open>The keys of the mapping are exactly the positions below \<^verbatim>\<open>ntotal\<close>.\<close>

definition mapping_consistent :: "disk \<Rightarrow> bool" where
  "mapping_consistent dsk =
     (dom (vec_map_of dsk) = (\<lambda>p. str_int (int p)) ` {..<ntotal_of dsk})"

text \<open>
  The last block of \<^verbatim>\<open>process_bookmark\<close> (lines 185 to 190): the index is updated when
  the embedding is truthy, and an exception of \<^verbatim>\<open>add_embedding_to_index\<close> is caught and
  printed, leaving the files as they were.
\<close>

definition index_bookmark :: "int \<Rightarrow> vec option \<Rightarrow> disk \<Rightarrow> disk" where
  "index_bookmark bookmark_id embedding dsk =
     (case embedding of
        None \<Rightarrow> dsk
      | Some emb \<Rightarrow>
          if emb = [] then dsk
          else (case add_embedding_to_index bookmark_id emb dsk of
                  Inl e \<Rightarrow> dsk
                | Inr dsk' \<Rightarrow> dsk'))"

definition added :: "int \<Rightarrow> vec option \<Rightarrow> disk \<Rightarrow> bool" where
  "added bookmark_id embedding dsk =
     (case embedding of
        None \<Rightarrow> False
      | Some emb \<Rightarrow>
          emb \<noteq> [] \<and>
          (case add_embedding_to_index bookmark_id emb dsk of Inl e \<Rightarrow> False | Inr dsk' \<Rightarrow> True))"

text \<open>
  A run of such blocks, some of which never call \<^verbatim>\<open>add_embedding_to_index\<close> or fail
  in it, and the number of them that added a vector.
\<close>

fun attempts :: "(int \<times> vec option) list \<Rightarrow> disk \<Rightarrow> disk" where
  "attempts [] dsk = dsk"
| "attempts ((bookmark_id, embedding) # rest) dsk =
     attempts rest (index_bookmark bookmark_id embedding dsk)"

fun successes :: "(int \<times> vec option) list \<Rightarrow> disk \<Rightarrow> nat" where
  "successes [] dsk = 0"
| "successes ((bookmark_id, embedding) # rest) dsk =
     (if added bookmark_id embedding dsk then 1 else 0)
     + successes rest (index_bookmark bookmark_id embedding dsk)"

subsection \<open>Extraction, embedding and tagging\<close>

text \<open>
  A call into a library or the network either returns, raises an exception of class
  \<^verbatim>\<open>Exception\<close> (which every \<^verbatim>\<open>except Exception\<close> of \<^verbatim>\<open>process_bookmark\<close> catches),
  or ends with something the handlers do not catch (\<^verbatim>\<open>KeyboardInterrupt\<close>,
  \<^verbatim>\<open>SystemExit\<close>, the process being killed).
\<close>

datatype 'a outcome = Returns 'a | Raises | Uncaught

text \<open>
  The collaborators. \<^verbatim>\<open>extract_text_from_url\<close> and \<^verbatim>\<open>extract_text_from_file\<close> call
  requests, pdfminer, python-docx and the file system, and what they compute from a page
  or a file plays no part below: each is represented by its outcome for a given url or
  path. \<open>encode\<close> is \<^verbatim>\<open>SentenceTransformer("all-MiniLM-L6-v2").encode\<close>, loading of the
  model included, and \<open>clf\<close> is the zero-shot classification pipeline, which returns
  the labels and their scores.
\<close>

record env =
  extract_text_from_url :: "string \<Rightarrow> string outcome"
  extract_text_from_file :: "string \<Rightarrow> string outcome"
  encode :: "string \<Rightarrow> vec outcome"
  clf :: "string \<Rightarrow> string list \<Rightarrow> (string list \<times> real list) outcome"

text \<open>
  \<^verbatim>\<open>generate_embedding\<close> loads the model on its first call and returns
  \<^verbatim>\<open>encode(text).tolist()\<close>; it has no statement besides these.
\<close>

definition generate_embedding :: "env \<Rightarrow> string \<Rightarrow> vec outcome" where
  "generate_embedding e txt = encode e txt"

definition default_labels :: "string list" where
  "default_labels =
     [''natural language processing'', ''machine learning'', ''deep learning'',
      ''computer vision'', ''data science'', ''ai'', ''tutorial'', ''paper'',
      ''web development'', ''python'', ''chat log'', ''research'']"

definition auto_tag :: "env \<Rightarrow> string \<Rightarrow> string list option \<Rightarrow> real \<Rightarrow> string list outcome" where
  "auto_tag e txt candidate_labels threshold =
     (let labels = (case candidate_labels of None \<Rightarrow> default_labels | Some ls \<Rightarrow> ls)
      in case clf e txt labels of
           Returns (lbls, scores) \<Rightarrow>
             Returns (map fst (filter (\<lambda>(lbl, scr). threshold \<le> scr) (zip lbls scores)))
         | Raises \<Rightarrow> Raises
         | Uncaught \<Rightarrow> Uncaught)"

subsection \<open>The database and the bookmark being processed\<close>

text \<open>
  The rows that \<^verbatim>\<open>process_bookmark\<close> reads and writes: the text and embedding columns of
  Bookmark, the BookmarkLink and BookmarkFile rows (bookmark id, url or path), the Tag
  names (unique) and the rows of the many-to-many table between Bookmark and Tag. The
  other columns are not touched. \<open>bookmark\<close> is the model instance in memory.
  The database statements themselves are taken to succeed.
\<close>

record store =
  bookmark_rows :: "int \<rightharpoonup> (string \<times> vec option)"
  link_rows :: "(int \<times> string) list"
  file_rows :: "(int \<times> string) list"
  tag_rows :: "string list"
  bookmark_tag_rows :: "(int \<times> string) list"
  vector_store :: disk

record bookmark =
  bm_id :: int
  bm_text :: string
  bm_embedding :: "vec option"

definition links_all :: "store \<Rightarrow> int \<Rightarrow> string list" where
  "links_all s bid = map snd (filter (\<lambda>(b, url). b = bid) (link_rows s))"

definition files_all :: "store \<Rightarrow> int \<Rightarrow> string list" where
  "files_all s bid = map snd (filter (\<lambda>(b, path). b = bid) (file_rows s))"

text \<open>
  \<^verbatim>\<open>Tag.objects.get_or_create(name=lbl)\<close> followed by \<^verbatim>\<open>bookmark.tags.add(tag)\<close>: each
  inserts a row only when there is none yet. The loop over the labels is taken to run
  to its end: a run that is ended inside the loop, after the rows of some labels were
  written, is not represented.
\<close>

definition get_or_create :: "string \<Rightarrow> store \<Rightarrow> store" where
  "get_or_create lbl s =
     (if lbl \<in> set (tag_rows s) then s else s\<lparr>tag_rows := tag_rows s @ [lbl]\<rparr>)"

definition tags_add :: "int \<Rightarrow> string \<Rightarrow> store \<Rightarrow> store" where
  "tags_add bid lbl s =
     (if (bid, lbl) \<in> set (bookmark_tag_rows s) then s
      else s\<lparr>bookmark_tag_rows := bookmark_tag_rows s @ [(bid, lbl)]\<rparr>)"

subsection \<open>process_bookmark\<close>

text \<open>
  The run carries the instance, the database and files, and the calls made so far in
  order. \<open>Propagated\<close> is an invocation that an uncaught failure ended; the run then
  holds the state at that moment.
\<close>

datatype event = EmbedderCalled string | TaggerCalled string | BookmarkSaved

datatype status = Completed | Propagated

record run =
  obj :: bookmark
  st :: store
  calls :: "event list"

text \<open>The two extraction loops: a source that raises contributes nothing.\<close>

fun gather :: "(string \<Rightarrow> string outcome) \<Rightarrow> string list \<Rightarrow> string list \<Rightarrow> string list option" where
  "gather f [] chunks = Some chunks"
| "gather f (src # rest) chunks =
     (case f src of
        Returns t \<Rightarrow> gather f rest (chunks @ [t])
      | Raises \<Rightarrow> gather f rest chunks
      | Uncaught \<Rightarrow> None)"

definition gather_chunks :: "env \<Rightarrow> store \<Rightarrow> int \<Rightarrow> string list option" where
  "gather_chunks e s bid =
     (case gather (extract_text_from_url e) (links_all s bid) [] of
        None \<Rightarrow> None
      | Some chunks \<Rightarrow> gather (extract_text_from_file e) (files_all s bid) chunks)"

definition gathered_text :: "env \<Rightarrow> store \<Rightarrow> int \<Rightarrow> string option" where
  "gathered_text e s bid =
     (case gather_chunks e s bid of
        None \<Rightarrow> None
      | Some chunks \<Rightarrow> Some (strip (join [CHR 0x0A] chunks)))"

definition embedding_stage :: "env \<Rightarrow> string \<Rightarrow> run \<Rightarrow> status \<times> run" where
  "embedding_stage e full_text r =
     (if full_text \<noteq> [] then
        (let r' = r\<lparr>calls := calls r @ [EmbedderCalled full_text]\<rparr>
         in case generate_embedding e full_text of
              Returns v \<Rightarrow> (Completed, r'\<lparr>obj := (obj r)\<lparr>bm_embedding := Some v\<rparr>\<rparr>)
            | Raises \<Rightarrow> (Completed, r'\<lparr>obj := (obj r)\<lparr>bm_embedding := None\<rparr>\<rparr>)
            | Uncaught \<Rightarrow> (Propagated, r'))
      else (Completed, r))"

definition save :: "run \<Rightarrow> run" where
  "save r =
     r\<lparr>st := (st r)\<lparr>bookmark_rows :=
                     (bookmark_rows (st r))
                       (bm_id (obj r) \<mapsto> (bm_text (obj r), bm_embedding (obj r)))\<rparr>,
       calls := calls r @ [BookmarkSaved]\<rparr>"

definition tagging_stage :: "env \<Rightarrow> string \<Rightarrow> run \<Rightarrow> status \<times> run" where
  "tagging_stage e full_text r =
     (if full_text \<noteq> [] then
        (let r' = r\<lparr>calls := calls r @ [TaggerCalled full_text]\<rparr>
         in case auto_tag e full_text None (3 / 10) of
              Returns lbls \<Rightarrow>
                (Completed,
                 r'\<lparr>st := fold (\<lambda>lbl s. tags_add (bm_id (obj r)) lbl (get_or_create lbl s))
                              lbls (st r)\<rparr>)
            | Raises \<Rightarrow> (Completed, r')
            | Uncaught \<Rightarrow> (Propagated, r'))
      else (Completed, r))"

definition faiss_stage :: "run \<Rightarrow> run" where
  "faiss_stage r =
     r\<lparr>st := (st r)\<lparr>vector_store :=
                     index_bookmark (bm_id (obj r)) (bm_embedding (obj r))
                       (vector_store (st r))\<rparr>\<rparr>"

text \<open>Lines 174 to 190: the save, the tagging block and the index block.\<close>

definition save_tag_index :: "env \<Rightarrow> string \<Rightarrow> run \<Rightarrow> status \<times> run" where
  "save_tag_index e full_text r =
     (case tagging_stage e full_text (save r) of
        (Propagated, r') \<Rightarrow> (Propagated, r')
      | (Completed, r') \<Rightarrow> (Completed, faiss_stage r'))"

definition process_bookmark :: "env \<Rightarrow> bookmark \<Rightarrow> store \<Rightarrow> status \<times> run" where
  "process_bookmark e bookmark s =
     (case gathered_text e s (bm_id bookmark) of
        None \<Rightarrow> (Propagated, \<lparr>obj = bookmark, st = s, calls = []\<rparr>)
      | Some full_text \<Rightarrow>
          (case embedding_stage e full_text
                  \<lparr>obj = bookmark\<lparr>bm_text := full_text\<rparr>, st = s, calls = []\<rparr> of
             (Propagated, r) \<Rightarrow> (Propagated, r)
           | (Completed, r) \<Rightarrow> save_tag_index e full_text r))"

subsection \<open>Example inputs\<close>

text \<open>
  One bookmark with one reachable link; the encoder and the classifier answer every text
  alike. The variants have an encoder that raises, an encoder or a classifier that ends
  the process, and a link that can no longer be fetched.
\<close>

definition env_ok :: env where
  "env_ok =
     \<lparr>extract_text_from_url = (\<lambda>u. if u = ''http://a'' then Returns '' hello '' else Raises),
      extract_text_from_file = (\<lambda>p. Raises),
      encode = (\<lambda>t. Returns [1, 0]),
      clf = (\<lambda>t ls. Returns ([''python'', ''paper''], [9 / 10, 1 / 10]))\<rparr>"


definition env_tagger_killed :: env where
  "env_tagger_killed = env_ok\<lparr>clf := (\<lambda>t ls. Uncaught)\<rparr>"

definition env_embedder_killed :: env where
  "env_embedder_killed = env_ok\<lparr>encode := (\<lambda>t. Uncaught)\<rparr>"

definition store0 :: store where
  "store0 =
     \<lparr>bookmark_rows = [7 \<mapsto> ([], None)],
      link_rows = [(7, ''http://a'')],
      file_rows = [],
      tag_rows = [],
      bookmark_tag_rows = [],
      vector_store = fresh_disk\<rparr>"

definition bookmark0 :: bookmark where
  "bookmark0 = \<lparr>bm_id = 7, bm_text = [], bm_embedding = None\<rparr>"

definition store_gone :: store where
  "store_gone =
     \<lparr>bookmark_rows = [7 \<mapsto> (''hello'', Some [1, 0])],
      link_rows = [(7, ''http://gone'')],
      file_rows = [],
      tag_rows = [],
      bookmark_tag_rows = [],
      vector_store = fresh_disk\<rparr>"

definition bookmark_gone :: bookmark where
  "bookmark_gone = \<lparr>bm_id = 7, bm_text = ''hello'', bm_embedding = Some [1, 0]\<rparr>"

definition disk2 :: disk where
  "disk2 =
     \<lparr>index_file = Some \<lparr>index_d = 2, xb = [[F32 1, F32 0], [F32 0, F32 1]]\<rparr>,
      map_file = Some [''0'' \<mapsto> 1, ''1'' \<mapsto> 2]\<rparr>"

definition disk_desync :: disk where
  "disk_desync =
     \<lparr>index_file = Some \<lparr>index_d = 2, xb = [[F32 1, F32 0], [F32 0, F32 1]]\<rparr>,
      map_file = Some [''1'' \<mapsto> 2]\<rparr>"

definition disk_overflow :: disk where
  "disk_overflow =
     \<lparr>index_file = Some \<lparr>index_d = 2, xb = [[PosInf, F32 0]]\<rparr>,
      map_file = Some [''0'' \<mapsto> 1]\<rparr>"

definition four_attempts :: "(int \<times> vec option) list" where
  "four_attempts = [(1, Some [1, 0]), (5, None), (6, Some [1, 2, 3]), (2, Some [0, 1])]"

definition processed_once :: run where
  "processed_once = snd (process_bookmark env_ok bookmark0 store0)"

definition processed_twice :: run where
  "processed_twice = snd (process_bookmark env_ok (obj processed_once) (st processed_once))"

text \<open>The texts of the sources for which an extractor returned, in order.\<close>

definition returned :: "(string \<Rightarrow> string outcome) \<Rightarrow> string list \<Rightarrow> string list" where
  "returned f srcs =
     List.map_filter (\<lambda>src. case f src of Returns t \<Rightarrow> Some t | Raises \<Rightarrow> None | Uncaught \<Rightarrow> None)
       srcs"

text \<open>The labels that a run of \<open>process_bookmark\<close> merges into the tags of the bookmark.\<close>

definition labels_merged :: "env \<Rightarrow> bookmark \<Rightarrow> store \<Rightarrow> string list" where
  "labels_merged e b s =
     (case gathered_text e s (bm_id b) of
        None \<Rightarrow> []
      | Some t \<Rightarrow>
          if t = [] \<or> generate_embedding e t = Uncaught then []
          else (case auto_tag e t None (3 / 10) of
                  Returns lbls \<Rightarrow> lbls
                | Raises \<Rightarrow> []
                | Uncaught \<Rightarrow> []))"

section \<open>Properties of the vector store\<close>

subsection \<open>Decimal keys\<close>

lemma nat_of_str_snoc: "nat_of_str (s @ [c]) = 10 * nat_of_str s + (of_char c - 48)"
  by (simp add: nat_of_str_def)

lemma digit_char_val: "n < 10 \<Longrightarrow> (of_char (digit_char n) :: nat) - 48 = n"
  by (simp add: digit_char_def)

lemma nat_of_str_str_nat: "nat_of_str (str_nat n) = n"
proof (induction n rule: str_nat.induct)
  case (1 n)
  show ?case
  proof (cases "n < 10")
    case True
    then show ?thesis
      using digit_char_val [of n] by (simp add: str_nat.simps [of n] nat_of_str_def)
  next
    case False
    then have "nat_of_str (str_nat n) = 10 * (n div 10) + n mod 10"
      using 1 digit_char_val [of "n mod 10"]
      by (simp add: str_nat.simps [of n] nat_of_str_snoc)
    then show ?thesis by simp
  qed
qed

lemma str_nat_inj: "str_nat a = str_nat b \<Longrightarrow> a = b"
  by (metis nat_of_str_str_nat)

lemma str_int_nat: "str_int (int n) = str_nat n"
  by (simp add: str_int_def)

lemma str_int_pos_inj: "str_int (int a) = str_int (int b) \<longleftrightarrow> a = b"
  using str_nat_inj by (auto simp: str_int_nat)

lemma inj_position_key: "inj_on (\<lambda>p. str_int (int p)) A"
  by (simp add: inj_on_def str_int_pos_inj)

lemma digit_char_not_minus: "n < 10 \<Longrightarrow> digit_char n \<noteq> CHR ''-''"
proof
  assume n: "n < 10" and "digit_char n = CHR ''-''"
  then have "(of_char (digit_char n) :: nat) = of_char CHR ''-''" by simp
  with n show False by (simp add: digit_char_def)
qed

lemma str_nat_no_minus: "CHR ''-'' \<notin> set (str_nat n)"
proof (induction n rule: str_nat.induct)
  case (1 n)
  show ?case
  proof (cases "n < 10")
    case True
    then show ?thesis
      using digit_char_not_minus [of n] by (auto simp: str_nat.simps [of n])
  next
    case False
    then show ?thesis
      using 1 digit_char_not_minus [of "n mod 10"] by (auto simp: str_nat.simps [of n])
  qed
qed

lemma str_int_minus_one: "str_int (- 1) = ''-1''"
  by code_simp

lemma position_key_not_minus_one: "str_int (int p) \<noteq> str_int (- 1)"
proof
  assume "str_int (int p) = str_int (- 1)"
  then have "CHR ''-'' \<in> set (str_nat p)" by (simp add: str_int_nat str_int_minus_one)
  then show False by (simp add: str_nat_no_minus)
qed

lemma str_int_0: "str_int 0 = ''0''"
  by code_simp

lemma str_int_1: "str_int 1 = ''1''"
  by code_simp

lemma str_int_2: "str_int 2 = ''2''"
  by code_simp

subsection \<open>Rounding to 32 bits\<close>

lemma round_half_even_int: "round_half_even (of_int n) = n"
  by (simp add: round_half_even_def)

lemma round_half_even_nonneg: "0 \<le> y \<Longrightarrow> 0 \<le> round_half_even y"
  by (auto simp: round_half_even_def Let_def)

lemma pow2_pos: "0 < pow2 e"
  by (simp add: pow2_def)

lemma round32_nonneg: "0 \<le> x \<Longrightarrow> 0 \<le> round32 x"
  by (auto simp: round32_def Let_def pow2_pos less_imp_le round_half_even_nonneg)

lemma round32_0: "round32 0 = 0"
  by (simp add: round32_def)

lemma round32_1: "round32 1 = 1"
proof -
  have "round_half_even (1 / pow2 (- 23)) = 2 ^ 23"
    using round_half_even_int [of "2 ^ 23"] by (simp add: pow2_def)
  then show ?thesis by (simp add: round32_def pow2_def)
qed

lemma round32_m1: "round32 (- 1) = - 1"
proof -
  have "round_half_even (- 1 / pow2 (- 23)) = - (2 ^ 23)"
    using round_half_even_int [of "- (2 ^ 23)"] by (simp add: pow2_def)
  then show ?thesis by (simp add: round32_def pow2_def)
qed

lemma round32_2: "round32 2 = 2"
proof -
  have "round_half_even (2 / pow2 (- 22)) = 2 ^ 23"
    using round_half_even_int [of "2 ^ 23"] by (simp add: pow2_def)
  then show ?thesis by (simp add: round32_def pow2_def)
qed

lemma float32_of_small:
  "float32_of 0 = F32 0" "float32_of 1 = F32 1" "float32_of (- 1) = F32 (- 1)"
  "float32_of 2 = F32 2"
  by (simp_all add: float32_of_def round32_0 round32_1 round32_m1 round32_2)

lemma float32_of_fits: "fits_float32 x \<Longrightarrow> float32_of x = F32 (round32 x)"
  by (auto simp: fits_float32_def float32_of_def)

lemma float32_of_overflow: "2 ^ 128 - 2 ^ 103 \<le> x \<Longrightarrow> float32_of x = PosInf"
  by (simp add: float32_of_def)

lemma float32_of_nonneg: "0 \<le> x \<Longrightarrow> nonneg32 (float32_of x)"
  by (simp add: float32_of_def nonneg32_def round32_nonneg)

lemma nonneg32_simps:
  "nonneg32 (F32 r) \<longleftrightarrow> 0 \<le> r" "nonneg32 PosInf" "nonneg32 NaN" "\<not> nonneg32 NegInf"
  by (simp_all add: nonneg32_def)

lemma f32_sqr_nonneg: "nonneg32 (f32_sqr z)"
  by (cases z) (simp_all add: float32_of_nonneg nonneg32_simps)

lemma f32_add_nonneg: "nonneg32 a \<Longrightarrow> nonneg32 b \<Longrightarrow> nonneg32 (f32_add a b)"
  by (cases a; cases b) (simp_all add: float32_of_nonneg nonneg32_simps)

subsection \<open>One call of add_embedding_to_index\<close>

lemma ntotal_of_stored: "ntotal_of dsk = length (stored_vectors dsk)"
  by (simp add: ntotal_of_def stored_vectors_def ntotal_def split: option.splits)

lemma add_step:
  assumes "add_embedding_to_index i v dsk = Inr dsk'"
  shows "stored_vectors dsk' = stored_vectors dsk @ [map float32_of v]"
    and "vec_map_of dsk' = (vec_map_of dsk)(str_int (int (ntotal_of dsk)) \<mapsto> i)"
    and "\<exists>ix. index_file dsk' = Some ix \<and> index_d ix = length v"
    and "\<And>ix. index_file dsk = Some ix \<Longrightarrow> index_d ix = length v"
  using assms
  by (auto simp: add_embedding_to_index_def load_faiss_def save_faiss_def index_add_def
      IndexFlatL2_def ntotal_def ntotal_of_def stored_vectors_def vec_map_of_def Let_def
      split: option.splits if_splits)

lemma add_ntotal:
  "add_embedding_to_index i v dsk = Inr dsk' \<Longrightarrow> ntotal_of dsk' = Suc (ntotal_of dsk)"
  by (simp add: ntotal_of_stored add_step(1))

lemma add_consistent:
  assumes "mapping_consistent dsk" and "add_embedding_to_index i v dsk = Inr dsk'"
  shows "mapping_consistent dsk'"
  using assms(1)
  by (simp add: mapping_consistent_def add_step(2) [OF assms(2)] add_ntotal [OF assms(2)]
      lessThan_Suc)

lemma consistent_fresh: "mapping_consistent fresh_disk"
  by (simp add: mapping_consistent_def vec_map_of_def load_faiss_def fresh_disk_def
      ntotal_of_def)

lemma consistent_card: "mapping_consistent dsk \<Longrightarrow> card (dom (vec_map_of dsk)) = ntotal_of dsk"
  by (simp add: mapping_consistent_def card_image inj_position_key)

lemma consistent_next_free:
  "mapping_consistent dsk \<Longrightarrow> vec_map_of dsk (str_int (int (ntotal_of dsk))) = None"
proof -
  assume c: "mapping_consistent dsk"
  have "str_int (int (ntotal_of dsk)) \<notin> (\<lambda>p. str_int (int p)) ` {..<ntotal_of dsk}"
    by (auto simp: str_int_pos_inj)
  with c show ?thesis by (auto simp: mapping_consistent_def)
qed

subsection \<open>Runs of calls\<close>

lemma add_all_append:
  "add_all (xs @ ys) dsk = (case add_all xs dsk of Inl e \<Rightarrow> Inl e | Inr d \<Rightarrow> add_all ys d)"
  by (induction xs dsk rule: add_all.induct) (auto split: sum.splits)

lemma add_all_state:
  assumes "add_all reqs fresh_disk = Inr dsk"
  shows "stored_vectors dsk = map (\<lambda>r. map float32_of (snd r)) reqs
       \<and> (\<forall>p<length reqs. vec_map_of dsk (str_int (int p)) = Some (fst (reqs ! p)))
       \<and> mapping_consistent dsk
       \<and> (\<forall>ix. index_file dsk = Some ix \<longrightarrow> (\<forall>v\<in>set (xb ix). length v = index_d ix))
       \<and> (reqs \<noteq> [] \<longrightarrow> index_file dsk \<noteq> None)"
  using assms
proof (induction reqs arbitrary: dsk rule: rev_induct)
  case Nil
  then show ?case
    using consistent_fresh
    by (auto simp: fresh_disk_def stored_vectors_def vec_map_of_def load_faiss_def)
next
  case (snoc r rs)
  obtain i v where r: "r = (i, v)" by (cases r)
  from snoc.prems obtain d0 where d0: "add_all rs fresh_disk = Inr d0"
    and step: "add_embedding_to_index i v d0 = Inr dsk"
    by (auto simp: add_all_append r split: sum.splits)
  note ih = snoc.IH [OF d0]
  note st = add_step [OF step]
  have len: "ntotal_of d0 = length rs" using ih by (simp add: ntotal_of_stored)
  have a: "stored_vectors dsk = map (\<lambda>r. map float32_of (snd r)) (rs @ [r])"
    using st(1) ih r by simp
  have b: "\<forall>p<length (rs @ [r]). vec_map_of dsk (str_int (int p)) = Some (fst ((rs @ [r]) ! p))"
  proof (intro allI impI)
    fix p assume "p < length (rs @ [r])"
    then consider "p < length rs" | "p = length rs" by fastforce
    then show "vec_map_of dsk (str_int (int p)) = Some (fst ((rs @ [r]) ! p))"
    proof cases
      case 1
      then have "str_int (int p) \<noteq> str_int (int (length rs))"
        by (simp add: str_int_pos_inj)
      with 1 ih show ?thesis by (simp add: st(2) len nth_append)
    next
      case 2
      then show ?thesis by (simp add: st(2) len r)
    qed
  qed
  have c: "mapping_consistent dsk" using ih step by (blast intro: add_consistent)
  have d: "\<forall>ix. index_file dsk = Some ix \<longrightarrow> (\<forall>v\<in>set (xb ix). length v = index_d ix)"
  proof (intro allI impI ballI)
    fix ix w assume ix: "index_file dsk = Some ix" and w: "w \<in> set (xb ix)"
    have xb: "xb ix = stored_vectors d0 @ [map float32_of v]"
      using st(1) ix by (simp add: stored_vectors_def)
    from st(3) ix have dv: "index_d ix = length v" by simp
    show "length w = index_d ix"
    proof (cases "index_file d0")
      case None
      then show ?thesis using w xb dv by (simp add: stored_vectors_def)
    next
      case (Some ix0)
      then have "index_d ix0 = length v" using st(4) by simp
      moreover have "\<forall>u\<in>set (xb ix0). length u = index_d ix0" using ih Some by blast
      ultimately show ?thesis using w xb dv Some by (auto simp: stored_vectors_def)
    qed
  qed
  have e: "index_file dsk \<noteq> None" using st(3) by auto
  from a b c d e show ?case by blast
qed

lemma index_bookmark_ntotal:
  "ntotal_of (index_bookmark i e dsk) = ntotal_of dsk + (if added i e dsk then 1 else 0)"
  by (auto simp: index_bookmark_def added_def add_ntotal split: option.splits sum.splits)

lemma index_bookmark_consistent:
  "mapping_consistent dsk \<Longrightarrow> mapping_consistent (index_bookmark i e dsk)"
  by (auto simp: index_bookmark_def intro: add_consistent split: option.splits sum.splits)

lemma attempts_ntotal: "ntotal_of (attempts atts dsk) = ntotal_of dsk + successes atts dsk"
  by (induction atts dsk rule: attempts.induct) (simp_all add: index_bookmark_ntotal)

lemma attempts_consistent:
  "mapping_consistent dsk \<Longrightarrow> mapping_consistent (attempts atts dsk)"
  by (induction atts dsk rule: attempts.induct) (simp_all add: index_bookmark_consistent)

subsection \<open>Distances and ranking\<close>

lemma l2sqr_fold_nonneg:
  "nonneg32 acc \<Longrightarrow>
     nonneg32 (foldl (\<lambda>res (a, b). f32_add res (f32_sqr (f32_sub a b))) acc zs)"
  by (induction zs arbitrary: acc) (auto simp: f32_add_nonneg f32_sqr_nonneg)

lemma l2sqr_nonneg: "nonneg32 (l2sqr x y)"
  unfolding l2sqr_def by (rule l2sqr_fold_nonneg) (simp add: nonneg32_def)

lemma l2sqr_self: "list_all is_finite32 x \<Longrightarrow> l2sqr x x = F32 0"
proof -
  have "list_all is_finite32 x \<Longrightarrow>
      foldl (\<lambda>res (a, b). f32_add res (f32_sqr (f32_sub a b))) (F32 0) (zip x x) = F32 0"
  proof (induction x)
    case Nil
    show ?case by simp
  next
    case (Cons c x)
    then obtain r where "c = F32 r" by (cases c) (simp_all add: is_finite32_def)
    with Cons show ?case by (simp add: float32_of_small)
  qed
  then show "list_all is_finite32 x \<Longrightarrow> l2sqr x x = F32 0" by (simp add: l2sqr_def)
qed

lemma cast_finite: "list_all fits_float32 v \<Longrightarrow> list_all is_finite32 (map float32_of v)"
  by (induction v) (simp_all add: float32_of_fits is_finite32_def)

lemma hd_sort_key_least:
  assumes "x \<in> set xs"
  shows "f (hd (sort_key f xs)) \<le> f x" and "hd (sort_key f xs) \<in> set xs"
proof -
  from assms have ne: "sort_key f xs \<noteq> []" by (metis empty_iff set_empty set_sort)
  then obtain y ys where ys: "sort_key f xs = y # ys" by (cases "sort_key f xs") auto
  have "sorted (map f (sort_key f xs))" by simp
  then have "\<forall>z\<in>set ys. f y \<le> f z" by (simp add: ys)
  moreover have "x \<in> set (y # ys)" using assms ys by (metis set_sort)
  ultimately show "f (hd (sort_key f xs)) \<le> f x" by (auto simp: ys)
  show "hd (sort_key f xs) \<in> set xs" using ys by (metis list.sel(1) list.set_intros(1) set_sort)
qed

lemma ranked_positions: "p \<in> set (ranked ix q) \<Longrightarrow> p < ntotal ix \<and> kept (l2sqr q (xb ix ! p))"
  by (simp add: ranked_def)

lemma ranked_head_zero:
  assumes j: "j < ntotal ix" and zero: "l2sqr q (xb ix ! j) = F32 0"
  shows "ranked ix q \<noteq> []" and "hd (ranked ix q) < ntotal ix"
    and "l2sqr q (xb ix ! hd (ranked ix q)) = F32 0"
proof -
  let ?f = "\<lambda>i. finite_value (l2sqr q (xb ix ! i))"
  let ?hits = "filter (\<lambda>i. kept (l2sqr q (xb ix ! i))) [0..<ntotal ix]"
  let ?m = "hd (ranked ix q)"
  have jin: "j \<in> set ?hits" using j zero by (simp add: kept_def max_float32_def)
  have r: "ranked ix q = sort_key ?f ?hits" by (simp add: ranked_def)
  show ne: "ranked ix q \<noteq> []" unfolding r using jin by (metis empty_iff set_empty set_sort)
  have le: "?f ?m \<le> ?f j" unfolding r by (rule hd_sort_key_least(1) [OF jin])
  have "?m \<in> set ?hits" unfolding r by (rule hd_sort_key_least(2) [OF jin])
  then have m: "?m < ntotal ix" and k: "kept (l2sqr q (xb ix ! ?m))" by simp_all
  show "?m < ntotal ix" by (rule m)
  from k obtain d where d: "l2sqr q (xb ix ! ?m) = F32 d"
    by (cases "l2sqr q (xb ix ! ?m)") (simp_all add: kept_def)
  have "0 \<le> d" using l2sqr_nonneg [of q "xb ix ! ?m"] by (simp add: d nonneg32_def)
  moreover have "d \<le> 0" using le by (simp add: d zero finite_value_def)
  ultimately show "l2sqr q (xb ix ! ?m) = F32 0" by (simp add: d)
qed

lemma search_head:
  assumes ix: "index_file dsk = Some ix"
    and j: "j < ntotal ix" and k: "1 \<le> k"
    and dims: "\<forall>v\<in>set (xb ix). length v = index_d ix"
    and keys: "\<forall>p<ntotal ix. vec_map_of dsk (str_int (int p)) = Some (ids ! p)"
    and q: "map float32_of qv = xb ix ! j" and fin: "list_all fits_float32 qv"
  shows "\<exists>res m. search_embeddings qv k dsk = Inr res \<and> res \<noteq> [] \<and> m < ntotal ix
           \<and> hd res = ids ! m \<and> l2sqr (xb ix ! j) (xb ix ! m) = F32 0"
proof -
  let ?q = "xb ix ! j"
  let ?k = "min k (int (ntotal ix))"
  define m where "m = hd (ranked ix ?q)"
  have zero: "l2sqr ?q (xb ix ! j) = F32 0"
    using l2sqr_self [OF cast_finite [OF fin]] by (simp add: q)
  note h = ranked_head_zero [OF j zero, folded m_def]
  have qlen: "length ?q = index_d ix" using dims j by (simp add: ntotal_def)
  from h(1) obtain rest where ranked: "ranked ix ?q = m # rest"
    unfolding m_def by (cases "ranked ix ?q") auto
  have kpos: "0 < ?k" using k j by simp
  then obtain k' where k': "nat ?k = Suc k'" by (cases "nat ?k") auto
  have "index_search ix ?q ?k
          = Inr (int m # map int (take k' rest) @ replicate (Suc k' - Suc (length rest)) (- 1))"
    using qlen kpos by (simp add: index_search_def k' ranked del: min_less_iff_conj)
  then obtain tl where tl: "index_search ix ?q ?k = Inr (int m # tl)" by blast
  have key_m: "vec_map_of dsk (str_int (int m)) = Some (ids ! m)" using keys h(2) by simp
  have "search_embeddings qv k dsk
        = Inr (ids ! m # List.map_filter (\<lambda>i. vec_map_of dsk (str_int i)) tl)"
    using j key_m
    by (simp add: search_embeddings_def search_loaded_def load_faiss_def ix q tl
        map_filter_simps vec_map_of_def)
  with h(2,3) show ?thesis by auto
qed

lemma index_search_labels:
  assumes "index_search ix q k = Inr idxs"
  shows "length idxs = nat k" and "\<forall>i\<in>set idxs. i = - 1 \<or> (\<exists>p<ntotal ix. i = int p)"
proof -
  from assms have idxs: "idxs = map int (take (nat k) (ranked ix q))
                           @ replicate (nat k - length (ranked ix q)) (- 1)"
    by (simp add: index_search_def split: if_splits)
  show "length idxs = nat k" by (simp add: idxs)
  show "\<forall>i\<in>set idxs. i = - 1 \<or> (\<exists>p<ntotal ix. i = int p)"
  proof
    fix i assume "i \<in> set idxs"
    then consider "i = - 1" | p where "p \<in> set (take (nat k) (ranked ix q))" "i = int p"
      by (auto simp: idxs)
    then show "i = - 1 \<or> (\<exists>p<ntotal ix. i = int p)"
    proof cases
      case 1
      then show ?thesis by simp
    next
      case 2
      from 2(1) have "p \<in> set (ranked ix q)" by (rule in_set_takeD)
      then have "p < ntotal ix" by (simp add: ranked_positions)
      with 2(2) show ?thesis by blast
    qed
  qed
qed

lemma map_filter_length: "length (List.map_filter f xs) \<le> length xs"
  by (simp add: map_filter_def)

lemma map_filter_set: "y \<in> set (List.map_filter f xs) \<Longrightarrow> \<exists>x\<in>set xs. f x = Some y"
  by (auto simp: map_filter_def)

lemma example_add_all: "add_all [(1, [1, 0]), (2, [0, 1])] fresh_disk = Inr disk2"
  by (simp add: add_embedding_to_index_def load_faiss_def save_faiss_def index_add_def
      IndexFlatL2_def ntotal_def fresh_disk_def disk2_def str_int_0 str_int_1
      float32_of_small)

lemmas search_defs =
  search_embeddings_def search_loaded_def load_faiss_def index_search_def ranked_def
  kept_def finite_value_def max_float32_def ntotal_def l2sqr_def upt_rec map_filter_simps
  float32_of_small

subsection \<open>Search after adding\<close>

text \<open>
  C1, as the code has it. After any run of successful calls \<open>add(id, vec)\<close> on a fresh
  store, take the vector of the \<open>j\<close>-th call and let every component of it convert to
  a finite \<^verbatim>\<open>float32\<close>. A search for it with \<open>k \<ge> 1\<close> returns a non-empty list whose
  first id belongs to a call whose stored vector is at computed distance zero from the
  query, which is the distance of the query to its own stored vector, and no stored
  vector is at a negative distance: the first id is the id of the \<open>j\<close>-th call or the
  id of a call tied with it for nearest.
\<close>

theorem search_returns_added:
  assumes "add_all reqs fresh_disk = Inr dsk" and "j < length reqs" and "1 \<le> k"
    and "list_all fits_float32 (snd (reqs ! j))"
  shows "\<exists>res m. search_embeddings (snd (reqs ! j)) k dsk = Inr res \<and> res \<noteq> []
           \<and> m < length reqs \<and> hd res = fst (reqs ! m)
           \<and> l2sqr (map float32_of (snd (reqs ! j))) (map float32_of (snd (reqs ! m))) = F32 0
           \<and> l2sqr (map float32_of (snd (reqs ! j))) (map float32_of (snd (reqs ! j))) = F32 0
           \<and> (\<forall>p<length reqs.
                 nonneg32 (l2sqr (map float32_of (snd (reqs ! j)))
                             (map float32_of (snd (reqs ! p)))))"
proof -
  note st = add_all_state [OF assms(1)]
  from st assms(2) obtain ix where ix: "index_file dsk = Some ix" by fastforce
  have xb: "xb ix = map (\<lambda>r. map float32_of (snd r)) reqs"
    using st ix by (simp add: stored_vectors_def)
  have n: "ntotal ix = length reqs" by (simp add: ntotal_def xb)
  have dims: "\<forall>v\<in>set (xb ix). length v = index_d ix" using st ix by blast
  have keys: "\<forall>p<ntotal ix. vec_map_of dsk (str_int (int p)) = Some (map fst reqs ! p)"
    using st by (simp add: n)
  have q: "map float32_of (snd (reqs ! j)) = xb ix ! j" using assms(2) by (simp add: xb)
  have self: "l2sqr (map float32_of (snd (reqs ! j))) (map float32_of (snd (reqs ! j))) = F32 0"
    by (rule l2sqr_self [OF cast_finite [OF assms(4)]])
  from search_head [OF ix _ assms(3) dims keys q assms(4)] assms(2)
  obtain res m where "search_embeddings (snd (reqs ! j)) k dsk = Inr res" "res \<noteq> []"
    "m < length reqs" "hd res = fst (reqs ! m)"
    "l2sqr (map float32_of (snd (reqs ! j))) (map float32_of (snd (reqs ! m))) = F32 0"
    by (auto simp: n xb)
  with self show ?thesis using l2sqr_nonneg by blast
qed

theorem search_returns_added_witness:
  "add_all [(1, [1, 0]), (2, [0, 1])] fresh_disk = Inr disk2
   \<and> (1 :: nat) < length [(1 :: int, [1, 0 :: real]), (2, [0, 1])]
   \<and> list_all fits_float32 [0, 1]
   \<and> search_embeddings [0, 1] 1 disk2 = Inr [2]
   \<and> l2sqr (map float32_of [0, 1]) (map float32_of [0, 1]) = F32 0"
proof -
  have len: "(1 :: nat) < length [(1 :: int, [1, 0 :: real]), (2, [0, 1])]" by simp
  have fit: "list_all fits_float32 (snd ([(1 :: int, [1, 0 :: real]), (2, [0, 1])] ! 1))"
    by (simp add: fits_float32_def)
  have s: "search_embeddings [0, 1] 1 disk2 = Inr [2]"
    by (simp add: search_defs disk2_def str_int_0 str_int_1)
  from search_returns_added [OF example_add_all len _ fit, of 1]
  have "l2sqr (map float32_of [0, 1]) (map float32_of [0, 1]) = F32 0" by auto
  with s example_add_all len fit show ?thesis by simp
qed

text \<open>
  The claim C1 itself fails for a vector outside the range of \<^verbatim>\<open>float32\<close>: the component
  \<open>10^39\<close> is stored as an infinity, the distance of the query to the stored vector is a
  NaN, the index returns the label \<open>-1\<close> and the search returns no id.
\<close>

theorem overflowed_vector_not_found:
  "add_all [(1, [10 ^ 39, 0])] fresh_disk = Inr disk_overflow
   \<and> search_embeddings [10 ^ 39, 0] 1 disk_overflow = Inr []"
proof -
  have big: "float32_of (10 ^ 39) = PosInf" by (simp add: float32_of_def)
  then have big': "float32_of 1000000000000000000000000000000000000000 = PosInf" by simp
  have a: "add_all [(1, [10 ^ 39, 0])] fresh_disk = Inr disk_overflow"
    by (simp add: add_embedding_to_index_def load_faiss_def save_faiss_def index_add_def
        IndexFlatL2_def ntotal_def fresh_disk_def disk_overflow_def str_int_0 big'
        float32_of_small)
  have "search_embeddings [10 ^ 39, 0] 1 disk_overflow = Inr []"
    by (simp add: search_defs disk_overflow_def big' str_int_minus_one)
  with a show ?thesis by simp
qed

text \<open>
  C2. On a fresh store, after any run of attempts, of which some never call
  \<open>add_embedding_to_index\<close> or fail in it, the number of stored vectors is the number
  \<open>n\<close> of attempts that added one; the next call that succeeds writes its id at the key
  of position \<open>n\<close>, which was free, and stores its vector, converted to \<^verbatim>\<open>float32\<close>, at
  position \<open>n\<close>.
\<close>

theorem position_assignment:
  "ntotal_of (attempts atts fresh_disk) = successes atts fresh_disk
   \<and> (add_embedding_to_index i v (attempts atts fresh_disk) = Inr dsk' \<longrightarrow>
        vec_map_of (attempts atts fresh_disk) (str_int (int (successes atts fresh_disk))) = None
      \<and> vec_map_of dsk'
          = (vec_map_of (attempts atts fresh_disk))
              (str_int (int (successes atts fresh_disk)) \<mapsto> i)
      \<and> length (stored_vectors dsk') = Suc (successes atts fresh_disk)
      \<and> stored_vectors dsk' ! successes atts fresh_disk = map float32_of v)"
proof -
  let ?d = "attempts atts fresh_disk"
  have n: "ntotal_of ?d = successes atts fresh_disk"
    by (simp add: attempts_ntotal) (simp add: ntotal_of_def fresh_disk_def)
  have c: "mapping_consistent ?d" by (rule attempts_consistent [OF consistent_fresh])
  have "add_embedding_to_index i v ?d = Inr dsk' \<Longrightarrow>
          vec_map_of ?d (str_int (int (successes atts fresh_disk))) = None
        \<and> vec_map_of dsk' = (vec_map_of ?d)(str_int (int (successes atts fresh_disk)) \<mapsto> i)
        \<and> length (stored_vectors dsk') = Suc (successes atts fresh_disk)
        \<and> stored_vectors dsk' ! successes atts fresh_disk = map float32_of v"
  proof -
    assume a: "add_embedding_to_index i v ?d = Inr dsk'"
    have len: "length (stored_vectors ?d) = successes atts fresh_disk"
      using n by (simp add: ntotal_of_stored)
    show ?thesis
      using consistent_next_free [OF c] add_step(1,2) [OF a] len
      by (simp add: n nth_append)
  qed
  with n show ?thesis by blast
qed

theorem position_assignment_witness:
  "successes four_attempts fresh_disk = 2
   \<and> add_embedding_to_index 3 [1, 1] (attempts four_attempts fresh_disk)
       = Inr \<lparr>index_file = Some \<lparr>index_d = 2, xb = [[F32 1, F32 0], [F32 0, F32 1], [F32 1, F32 1]]\<rparr>,
              map_file = Some [''0'' \<mapsto> 1, ''1'' \<mapsto> 2, ''2'' \<mapsto> 3]\<rparr>
   \<and> stored_vectors \<lparr>index_file = Some \<lparr>index_d = 2, xb = [[F32 1, F32 0], [F32 0, F32 1], [F32 1, F32 1]]\<rparr>,
              map_file = Some [''0'' \<mapsto> 1, ''1'' \<mapsto> 2, ''2'' \<mapsto> 3]\<rparr> ! 2
       = map float32_of [1, 1]"
proof -
  have run: "attempts four_attempts fresh_disk = disk2"
    by (simp add: four_attempts_def index_bookmark_def add_embedding_to_index_def
        load_faiss_def save_faiss_def index_add_def IndexFlatL2_def ntotal_def
        fresh_disk_def disk2_def str_int_0 str_int_1 float32_of_small)
  have add: "add_embedding_to_index 3 [1, 1] (attempts four_attempts fresh_disk)
       = Inr \<lparr>index_file = Some \<lparr>index_d = 2, xb = [[F32 1, F32 0], [F32 0, F32 1], [F32 1, F32 1]]\<rparr>,
              map_file = Some [''0'' \<mapsto> 1, ''1'' \<mapsto> 2, ''2'' \<mapsto> 3]\<rparr>"
    by (simp add: run) (simp add: add_embedding_to_index_def load_faiss_def save_faiss_def
        index_add_def ntotal_def disk2_def str_int_2 float32_of_small)
  have two: "ntotal_of disk2 = 2" by (simp add: ntotal_of_def ntotal_def disk2_def)
  from position_assignment [of four_attempts 3 "[1, 1]"
      "\<lparr>index_file = Some \<lparr>index_d = 2, xb = [[F32 1, F32 0], [F32 0, F32 1], [F32 1, F32 1]]\<rparr>,
        map_file = Some [''0'' \<mapsto> 1, ''1'' \<mapsto> 2, ''2'' \<mapsto> 3]\<rparr>"] add two
  show ?thesis by (simp add: run stored_vectors_def float32_of_small)
qed

text \<open>
  C3. Whenever \<open>search(q, k)\<close> returns, it returns at most \<open>min(k, ntotal)\<close> ids (none
  when that minimum is not positive), and each of them is the entry of the mapping at a
  label that the index returned, a position below \<open>ntotal\<close> or the filler \<open>-1\<close>; when
  the mapping has no key \<open>-1\<close>, as every mapping that the adds have written, each id is
  the entry at a position below \<open>ntotal\<close>. It returns the empty list when there is no
  index file or the index holds no vector; and it returns, whatever the mapping holds,
  for every \<open>k \<ge> 1\<close> and every query of the index's dimension.
\<close>

theorem search_bounded:
  "(search_embeddings q k dsk = Inr res \<longrightarrow>
      length res \<le> nat (min k (int (ntotal_of dsk)))
    \<and> (\<forall>x\<in>set res. \<exists>i. - 1 \<le> i \<and> i < int (ntotal_of dsk)
                        \<and> vec_map_of dsk (str_int i) = Some x)
    \<and> (vec_map_of dsk (str_int (- 1)) = None \<or> mapping_consistent dsk \<longrightarrow>
         (\<forall>x\<in>set res. \<exists>p<ntotal_of dsk. vec_map_of dsk (str_int (int p)) = Some x)))
   \<and> (index_file dsk = None \<or> ntotal_of dsk = 0 \<longrightarrow> search_embeddings q k dsk = Inr [])
   \<and> (1 \<le> k \<and> (case index_file dsk of None \<Rightarrow> True | Some ix \<Rightarrow> length q = index_d ix) \<longrightarrow>
        (\<exists>ids. search_embeddings q k dsk = Inr ids))"
proof (intro conjI impI)
  assume r: "search_embeddings q k dsk = Inr res"
  have cases: "res = [] \<or> (\<exists>ix idxs. index_file dsk = Some ix \<and> ntotal ix \<noteq> 0
      \<and> index_search ix (map float32_of q) (min k (int (ntotal ix))) = Inr idxs
      \<and> res = List.map_filter (\<lambda>i. vec_map_of dsk (str_int i)) idxs)"
  proof (cases "index_file dsk")
    case None
    with r show ?thesis
      by (simp add: search_embeddings_def search_loaded_def load_faiss_def)
  next
    case (Some ix)
    show ?thesis
    proof (cases "ntotal ix = 0")
      case True
      with r Some show ?thesis
        by (simp add: search_embeddings_def search_loaded_def load_faiss_def)
    next
      case False
      with r Some show ?thesis
        by (auto simp: search_embeddings_def search_loaded_def load_faiss_def vec_map_of_def
            split: sum.splits)
    qed
  qed
  show "length res \<le> nat (min k (int (ntotal_of dsk)))"
  proof -
    from cases consider "res = []"
      | ix idxs where "index_file dsk = Some ix"
          "index_search ix (map float32_of q) (min k (int (ntotal ix))) = Inr idxs"
          "res = List.map_filter (\<lambda>i. vec_map_of dsk (str_int i)) idxs"
      by blast
    then show ?thesis
    proof cases
      case 1
      then show ?thesis by simp
    next
      case 2
      have "length res \<le> length idxs" unfolding 2(3) by (rule map_filter_length)
      also have "\<dots> = nat (min k (int (ntotal ix)))" by (rule index_search_labels(1) [OF 2(2)])
      finally show ?thesis by (simp add: ntotal_of_def 2(1))
    qed
  qed
  show labels: "\<forall>x\<in>set res. \<exists>i. - 1 \<le> i \<and> i < int (ntotal_of dsk)
                        \<and> vec_map_of dsk (str_int i) = Some x"
  proof
    fix x assume x: "x \<in> set res"
    with cases obtain ix idxs where ix: "index_file dsk = Some ix"
      and s: "index_search ix (map float32_of q) (min k (int (ntotal ix))) = Inr idxs"
      and res: "res = List.map_filter (\<lambda>i. vec_map_of dsk (str_int i)) idxs"
      by auto
    from x obtain i where i: "i \<in> set idxs" and v: "vec_map_of dsk (str_int i) = Some x"
      unfolding res by (blast dest: map_filter_set)
    from index_search_labels(2) [OF s] i have "i = - 1 \<or> (\<exists>p<ntotal ix. i = int p)" by blast
    then have "- 1 \<le> i \<and> i < int (ntotal_of dsk)" by (auto simp: ntotal_of_def ix)
    with v show "\<exists>i. - 1 \<le> i \<and> i < int (ntotal_of dsk) \<and> vec_map_of dsk (str_int i) = Some x"
      by blast
  qed
  show "\<forall>x\<in>set res. \<exists>p<ntotal_of dsk. vec_map_of dsk (str_int (int p)) = Some x"
    if h: "vec_map_of dsk (str_int (- 1)) = None \<or> mapping_consistent dsk"
  proof
    have none: "vec_map_of dsk (str_int (- 1)) = None"
    proof (rule disjE [OF h])
      assume c: "mapping_consistent dsk"
      have "str_int (- 1) \<notin> (\<lambda>p. str_int (int p)) ` {..<ntotal_of dsk}"
        using position_key_not_minus_one by (metis imageE)
      with c show ?thesis by (auto simp: mapping_consistent_def)
    qed
    fix x assume "x \<in> set res"
    with labels obtain i where i: "- 1 \<le> i" "i < int (ntotal_of dsk)"
      and v: "vec_map_of dsk (str_int i) = Some x"
      by blast
    from v none have "i \<noteq> - 1" by auto
    with i have "0 \<le> i" by simp
    then obtain p where p: "i = int p" by (metis nonneg_int_cases)
    with i v show "\<exists>p<ntotal_of dsk. vec_map_of dsk (str_int (int p)) = Some x" by auto
  qed
next
  assume "index_file dsk = None \<or> ntotal_of dsk = 0"
  then show "search_embeddings q k dsk = Inr []"
    by (auto simp: search_embeddings_def search_loaded_def load_faiss_def ntotal_of_def
        split: option.splits)
next
  assume a: "1 \<le> k \<and> (case index_file dsk of None \<Rightarrow> True | Some ix \<Rightarrow> length q = index_d ix)"
  show "\<exists>ids. search_embeddings q k dsk = Inr ids"
  proof (cases "index_file dsk")
    case None
    then show ?thesis by (simp add: search_embeddings_def search_loaded_def load_faiss_def)
  next
    case (Some ix)
    have "ntotal ix \<noteq> 0 \<Longrightarrow> 0 < min k (int (ntotal ix))" using a by simp
    with a Some
    have "ntotal ix \<noteq> 0 \<Longrightarrow>
      \<exists>idxs. index_search ix (map float32_of q) (min k (int (ntotal ix))) = Inr idxs"
      by (simp add: index_search_def del: min_less_iff_conj)
    then show ?thesis
      by (cases "ntotal ix = 0")
        (auto simp: search_embeddings_def search_loaded_def load_faiss_def Some)
  qed
qed

theorem search_bounded_witness:
  "search_embeddings [1, 0] 5 disk_desync = Inr [2]
   \<and> length [2 :: int] \<le> nat (min 5 (int (ntotal_of disk_desync)))
   \<and> vec_map_of disk_desync (str_int (int 1)) = Some 2
   \<and> vec_map_of disk_desync (str_int (int 0)) = None
   \<and> vec_map_of disk_desync (str_int (- 1)) = None
   \<and> index_file fresh_disk = None
   \<and> search_embeddings [1, 0] 5 fresh_disk = Inr []"
proof -
  have s: "search_embeddings [1, 0] 5 disk_desync = Inr [2]"
    by (simp add: search_defs disk_desync_def str_int_0 str_int_1 str_int_minus_one)
  have f: "index_file fresh_disk = None" by (simp add: fresh_disk_def)
  have m: "vec_map_of disk_desync (str_int (int 1)) = Some 2"
      "vec_map_of disk_desync (str_int (int 0)) = None"
      "vec_map_of disk_desync (str_int (- 1)) = None"
    by (simp_all add: vec_map_of_def load_faiss_def disk_desync_def str_int_0 str_int_1
        str_int_minus_one)
  from search_bounded [of "[1, 0]" 5 disk_desync "[2]"]
    search_bounded [of "[1, 0]" 5 fresh_disk "[]"] s f m
  show ?thesis by simp
qed

subsection \<open>The mapping and the index\<close>

lemmas pipeline_defs =
  process_bookmark_def save_tag_index_def gathered_text_def gather_chunks_def links_all_def files_all_def
  embedding_stage_def generate_embedding_def save_def tagging_stage_def auto_tag_def
  get_or_create_def tags_add_def faiss_stage_def index_bookmark_def strip_def is_space_def

lemmas faiss_defs =
  add_embedding_to_index_def load_faiss_def save_faiss_def index_add_def IndexFlatL2_def
  ntotal_def fresh_disk_def

lemma processed_once_eval:
  "process_bookmark env_ok bookmark0 store0 =
     (Completed,
      \<lparr>obj = \<lparr>bm_id = 7, bm_text = ''hello'', bm_embedding = Some [1, 0]\<rparr>,
       st = \<lparr>bookmark_rows = [7 \<mapsto> (''hello'', Some [1, 0])],
             link_rows = [(7, ''http://a'')],
             file_rows = [],
             tag_rows = [''python''],
             bookmark_tag_rows = [(7, ''python'')],
             vector_store = \<lparr>index_file = Some \<lparr>index_d = 2, xb = [[F32 1, F32 0]]\<rparr>,
                             map_file = Some [''0'' \<mapsto> 7]\<rparr>\<rparr>,
       calls = [EmbedderCalled ''hello'', BookmarkSaved, TaggerCalled ''hello'']\<rparr>)"
  by (simp add: pipeline_defs faiss_defs env_ok_def bookmark0_def store0_def str_int_0
      float32_of_small)

lemma processed_twice_eval:
  "processed_twice =
      \<lparr>obj = \<lparr>bm_id = 7, bm_text = ''hello'', bm_embedding = Some [1, 0]\<rparr>,
       st = \<lparr>bookmark_rows = [7 \<mapsto> (''hello'', Some [1, 0])],
             link_rows = [(7, ''http://a'')],
             file_rows = [],
             tag_rows = [''python''],
             bookmark_tag_rows = [(7, ''python'')],
             vector_store = \<lparr>index_file = Some \<lparr>index_d = 2, xb = [[F32 1, F32 0], [F32 1, F32 0]]\<rparr>,
                             map_file = Some [''0'' \<mapsto> 7, ''1'' \<mapsto> 7]\<rparr>\<rparr>,
       calls = [EmbedderCalled ''hello'', BookmarkSaved, TaggerCalled ''hello'']\<rparr>"
  unfolding processed_twice_def processed_once_def processed_once_eval
  by (simp add: pipeline_defs faiss_defs env_ok_def str_int_1 float32_of_small)

lemma tagging_stage_obj: "obj (snd (tagging_stage e t r)) = obj r"
  by (simp add: tagging_stage_def Let_def split: outcome.splits)

text \<open>
  C4, as the code has it. The keys of the mapping are exactly the positions below
  \<open>ntotal\<close>, so the mapping has \<open>ntotal\<close> entries and every mapped position is below
  \<open>ntotal\<close>; this holds on a fresh store and is preserved by every successful add,
  also one made when a document is processed again. Each successful add writes the
  document's id at a new position, whether or not the id is already in the mapping.
\<close>

theorem mapping_invariant:
  "mapping_consistent fresh_disk
   \<and> (mapping_consistent dsk \<longrightarrow> card (dom (vec_map_of dsk)) = ntotal_of dsk)
   \<and> (mapping_consistent dsk \<and> add_embedding_to_index i v dsk = Inr dsk' \<longrightarrow>
        mapping_consistent dsk'
      \<and> ntotal_of dsk' = Suc (ntotal_of dsk)
      \<and> vec_map_of dsk (str_int (int (ntotal_of dsk))) = None
      \<and> vec_map_of dsk' = (vec_map_of dsk)(str_int (int (ntotal_of dsk)) \<mapsto> i))"
proof (intro conjI impI)
  show "mapping_consistent fresh_disk" by (rule consistent_fresh)
  show "mapping_consistent dsk \<Longrightarrow> card (dom (vec_map_of dsk)) = ntotal_of dsk"
    by (rule consistent_card)
next
  assume a: "mapping_consistent dsk \<and> add_embedding_to_index i v dsk = Inr dsk'"
  then show "mapping_consistent dsk'" by (blast intro: add_consistent)
  from a show "ntotal_of dsk' = Suc (ntotal_of dsk)" by (blast intro: add_ntotal)
  from a show "vec_map_of dsk (str_int (int (ntotal_of dsk))) = None"
    by (blast intro: consistent_next_free)
  from a show "vec_map_of dsk' = (vec_map_of dsk)(str_int (int (ntotal_of dsk)) \<mapsto> i)"
    by (blast intro: add_step(2))
qed

theorem mapping_invariant_witness:
  "add_embedding_to_index 7 [1, 0] fresh_disk = Inr (vector_store (st processed_once))
   \<and> mapping_consistent (vector_store (st processed_once))
   \<and> add_embedding_to_index 7 [1, 0] (vector_store (st processed_once))
       = Inr (vector_store (st processed_twice))
   \<and> mapping_consistent (vector_store (st processed_twice))
   \<and> card (dom (vec_map_of (vector_store (st processed_twice)))) = 2
   \<and> vec_map_of (vector_store (st processed_twice)) ''1'' = Some 7"
proof -
  have once: "vector_store (st processed_once)
      = \<lparr>index_file = Some \<lparr>index_d = 2, xb = [[F32 1, F32 0]]\<rparr>,
         map_file = Some [''0'' \<mapsto> 7]\<rparr>"
    by (simp add: processed_once_def processed_once_eval)
  have add0: "add_embedding_to_index 7 [1, 0] fresh_disk
                = Inr (vector_store (st processed_once))"
    by (simp add: once faiss_defs str_int_0 float32_of_small)
  have c1: "mapping_consistent (vector_store (st processed_once))"
    using mapping_invariant [of fresh_disk 7 "[1, 0]" "vector_store (st processed_once)"] add0
    by simp
  have add: "add_embedding_to_index 7 [1, 0] (vector_store (st processed_once))
       = Inr (vector_store (st processed_twice))"
    by (simp add: once processed_twice_eval add_embedding_to_index_def load_faiss_def
        save_faiss_def index_add_def ntotal_def str_int_1 float32_of_small)
  have n: "ntotal_of (vector_store (st processed_twice)) = 2"
    by (simp add: processed_twice_eval ntotal_of_def ntotal_def)
  have v: "vec_map_of (vector_store (st processed_twice)) ''1'' = Some 7"
    by (simp add: processed_twice_eval vec_map_of_def load_faiss_def)
  from mapping_invariant [of "vector_store (st processed_twice)"]
    mapping_invariant [of "vector_store (st processed_once)" 7 "[1, 0]"
      "vector_store (st processed_twice)"] c1 add add0 n v
  show ?thesis by simp
qed

text \<open>
  The claim C4 itself fails: processing the example bookmark a second time, as the edit
  view does, indexes its id 7 a second time, at positions 0 and 1.
\<close>

theorem reprocessing_repeats_id:
  "vec_map_of (vector_store (st processed_twice)) ''0'' = Some 7
   \<and> vec_map_of (vector_store (st processed_twice)) ''1'' = Some 7
   \<and> ntotal_of (vector_store (st processed_twice)) = 2
   \<and> \<not> inj_on (vec_map_of (vector_store (st processed_twice)))
          (dom (vec_map_of (vector_store (st processed_twice))))"
proof -
  let ?m = "vec_map_of (vector_store (st processed_twice))"
  have a: "?m ''0'' = Some 7" and b: "?m ''1'' = Some 7"
    by (simp_all add: processed_twice_eval vec_map_of_def load_faiss_def)
  have n: "ntotal_of (vector_store (st processed_twice)) = 2"
    by (simp add: processed_twice_eval ntotal_of_def ntotal_def)
  have "''0'' \<in> dom ?m" and "''1'' \<in> dom ?m" using a b by auto
  moreover have "''0'' \<noteq> ''1''" by simp
  ultimately have "\<not> inj_on ?m (dom ?m)" using a b unfolding inj_on_def by metis
  with a b n show ?thesis by simp
qed

subsection \<open>Saving and loading\<close>

lemma load_save:
  "index \<noteq> None \<or> index_file target = None \<Longrightarrow>
     load_faiss (save_faiss index vec_map target) = (index, vec_map)"
  by (auto simp: load_faiss_def save_faiss_def split: option.splits)

text \<open>
  C5. For the pair of index and mapping that a run of successful adds on a fresh store
  has reached, writing it with \<open>_save_faiss\<close> (to a place with no older index file when
  the pair has no index, which the function then does not write) and loading it again
  gives back the same pair, so the search on the files returns what the search on the
  pair returns, for every query and every \<open>k\<close>.
\<close>

theorem save_load_roundtrip:
  assumes "add_all reqs fresh_disk = Inr dsk"
    and "load_faiss dsk = (index, vec_map)"
    and "index \<noteq> None \<or> index_file target = None"
  shows "load_faiss (save_faiss index vec_map target) = (index, vec_map)
       \<and> search_embeddings q k (save_faiss index vec_map target)
           = search_loaded index vec_map q k
       \<and> search_embeddings q k (save_faiss index vec_map target) = search_embeddings q k dsk"
  using load_save [OF assms(3)] assms(2) by (simp add: search_embeddings_def)

theorem save_load_roundtrip_witness:
  "add_all [(1, [1, 0]), (2, [0, 1])] fresh_disk = Inr disk2
   \<and> load_faiss disk2
       = (Some \<lparr>index_d = 2, xb = [[F32 1, F32 0], [F32 0, F32 1]]\<rparr>, [''0'' \<mapsto> 1, ''1'' \<mapsto> 2])
   \<and> search_embeddings [0, 0] 2
        (save_faiss (Some \<lparr>index_d = 2, xb = [[F32 1, F32 0], [F32 0, F32 1]]\<rparr>) [''0'' \<mapsto> 1, ''1'' \<mapsto> 2]
           fresh_disk)
       = Inr [1, 2]
   \<and> search_embeddings [0, 0] 2 disk2 = Inr [1, 2]"
proof -
  have l: "load_faiss disk2
       = (Some \<lparr>index_d = 2, xb = [[F32 1, F32 0], [F32 0, F32 1]]\<rparr>, [''0'' \<mapsto> 1, ''1'' \<mapsto> 2])"
    by (simp add: load_faiss_def disk2_def)
  have s: "search_embeddings [0, 0] 2 disk2 = Inr [1, 2]"
    by (simp add: search_defs disk2_def str_int_0 str_int_1)
  have c: "Some \<lparr>index_d = 2, xb = [[F32 1, F32 0], [F32 0, F32 1]]\<rparr> \<noteq> None
           \<or> index_file fresh_disk = None"
    by simp
  from save_load_roundtrip [OF example_add_all l c, of "[0, 0]" 2]
  have "search_embeddings [0, 0] 2
          (save_faiss (Some \<lparr>index_d = 2, xb = [[F32 1, F32 0], [F32 0, F32 1]]\<rparr>)
             [''0'' \<mapsto> 1, ''1'' \<mapsto> 2] fresh_disk)
        = search_embeddings [0, 0] 2 disk2"
    by blast
  with s l example_add_all show ?thesis by simp
qed

section \<open>Properties of process_bookmark\<close>

subsection \<open>The stages\<close>

lemma process_unfold:
  "process_bookmark e b s =
     (case gathered_text e s (bm_id b) of
        None \<Rightarrow> (Propagated, \<lparr>obj = b, st = s, calls = []\<rparr>)
      | Some t \<Rightarrow>
          if t = [] then save_tag_index e [] \<lparr>obj = b\<lparr>bm_text := []\<rparr>, st = s, calls = []\<rparr>
          else
            (case generate_embedding e t of
               Uncaught \<Rightarrow>
                 (Propagated, \<lparr>obj = b\<lparr>bm_text := t\<rparr>, st = s, calls = [EmbedderCalled t]\<rparr>)
             | Raises \<Rightarrow>
                 save_tag_index e t
                   \<lparr>obj = b\<lparr>bm_text := t, bm_embedding := None\<rparr>, st = s,
                    calls = [EmbedderCalled t]\<rparr>
             | Returns v \<Rightarrow>
                 save_tag_index e t
                   \<lparr>obj = b\<lparr>bm_text := t, bm_embedding := Some v\<rparr>, st = s,
                    calls = [EmbedderCalled t]\<rparr>))"
  by (simp add: process_bookmark_def embedding_stage_def Let_def
      split: option.splits outcome.splits)

lemma save_tag_index_unfold:
  "save_tag_index e t r =
     (if t = [] then (Completed, faiss_stage (save r))
      else (case auto_tag e t None (3 / 10) of
              Returns lbls \<Rightarrow>
                (Completed,
                 faiss_stage
                   ((save r)\<lparr>calls := calls r @ [BookmarkSaved, TaggerCalled t],
                      st := fold (\<lambda>lbl s. tags_add (bm_id (obj r)) lbl (get_or_create lbl s))
                              lbls (st (save r))\<rparr>))
            | Raises \<Rightarrow>
                (Completed,
                 faiss_stage ((save r)\<lparr>calls := calls r @ [BookmarkSaved, TaggerCalled t]\<rparr>))
            | Uncaught \<Rightarrow>
                (Propagated, (save r)\<lparr>calls := calls r @ [BookmarkSaved, TaggerCalled t]\<rparr>)))"
  by (simp add: save_tag_index_def tagging_stage_def save_def Let_def split: outcome.splits)

lemma faiss_stage_simps:
  "calls (faiss_stage r) = calls r"
  "obj (faiss_stage r) = obj r"
  "bookmark_rows (st (faiss_stage r)) = bookmark_rows (st r)"
  "tag_rows (st (faiss_stage r)) = tag_rows (st r)"
  "bookmark_tag_rows (st (faiss_stage r)) = bookmark_tag_rows (st r)"
  "vector_store (st (faiss_stage r))
     = index_bookmark (bm_id (obj r)) (bm_embedding (obj r)) (vector_store (st r))"
  by (simp_all add: faiss_stage_def)

lemma tag_fold_bookmark_rows:
  "bookmark_rows (fold (\<lambda>lbl s. tags_add bid lbl (get_or_create lbl s)) lbls s) = bookmark_rows s"
  by (induction lbls arbitrary: s) (simp_all add: tags_add_def get_or_create_def)

text \<open>The six ways through \<open>process_bookmark\<close>.\<close>

lemma process_cases:
  obtains
    (extraction_killed)
      "gathered_text e s (bm_id b) = None"
      "process_bookmark e b s = (Propagated, \<lparr>obj = b, st = s, calls = []\<rparr>)"
  | (no_text)
      "gathered_text e s (bm_id b) = Some []"
      "process_bookmark e b s
         = (Completed,
            faiss_stage
              \<lparr>obj = b\<lparr>bm_text := []\<rparr>,
               st = s\<lparr>bookmark_rows := (bookmark_rows s)(bm_id b \<mapsto> ([], bm_embedding b))\<rparr>,
               calls = [BookmarkSaved]\<rparr>)"
  | (embedder_killed) t where
      "gathered_text e s (bm_id b) = Some t" "t \<noteq> []"
      "generate_embedding e t = Uncaught"
      "process_bookmark e b s
         = (Propagated, \<lparr>obj = b\<lparr>bm_text := t\<rparr>, st = s, calls = [EmbedderCalled t]\<rparr>)"
  | (tagger_killed) t emb where
      "gathered_text e s (bm_id b) = Some t" "t \<noteq> []"
      "generate_embedding e t = (case emb of None \<Rightarrow> Raises | Some v \<Rightarrow> Returns v)"
      "auto_tag e t None (3 / 10) = Uncaught"
      "process_bookmark e b s
         = (Propagated,
            \<lparr>obj = b\<lparr>bm_text := t, bm_embedding := emb\<rparr>,
             st = s\<lparr>bookmark_rows := (bookmark_rows s)(bm_id b \<mapsto> (t, emb))\<rparr>,
             calls = [EmbedderCalled t, BookmarkSaved, TaggerCalled t]\<rparr>)"
  | (tagger_raised) t emb where
      "gathered_text e s (bm_id b) = Some t" "t \<noteq> []"
      "generate_embedding e t = (case emb of None \<Rightarrow> Raises | Some v \<Rightarrow> Returns v)"
      "auto_tag e t None (3 / 10) = Raises"
      "process_bookmark e b s
         = (Completed,
            faiss_stage
              \<lparr>obj = b\<lparr>bm_text := t, bm_embedding := emb\<rparr>,
               st = s\<lparr>bookmark_rows := (bookmark_rows s)(bm_id b \<mapsto> (t, emb))\<rparr>,
               calls = [EmbedderCalled t, BookmarkSaved, TaggerCalled t]\<rparr>)"
  | (tagged) t emb lbls where
      "gathered_text e s (bm_id b) = Some t" "t \<noteq> []"
      "generate_embedding e t = (case emb of None \<Rightarrow> Raises | Some v \<Rightarrow> Returns v)"
      "auto_tag e t None (3 / 10) = Returns lbls"
      "process_bookmark e b s
         = (Completed,
            faiss_stage
              \<lparr>obj = b\<lparr>bm_text := t, bm_embedding := emb\<rparr>,
               st = fold (\<lambda>lbl s. tags_add (bm_id b) lbl (get_or_create lbl s)) lbls
                      (s\<lparr>bookmark_rows := (bookmark_rows s)(bm_id b \<mapsto> (t, emb))\<rparr>),
               calls = [EmbedderCalled t, BookmarkSaved, TaggerCalled t]\<rparr>)"
proof (cases "gathered_text e s (bm_id b)")
  case None
  then show ?thesis using extraction_killed by (simp add: process_unfold)
next
  case (Some t)
  show ?thesis
  proof (cases "t = []")
    case True
    with Some show ?thesis
      using no_text by (simp add: process_unfold save_tag_index_unfold save_def)
  next
    case False
    show ?thesis
    proof (cases "generate_embedding e t")
      case Uncaught
      with Some False show ?thesis using embedder_killed by (simp add: process_unfold)
    next
      case Raises
      then have g: "generate_embedding e t = (case None of None \<Rightarrow> Raises | Some v \<Rightarrow> Returns v)"
        by simp
      show ?thesis
      proof (cases "auto_tag e t None (3 / 10)")
        case Uncaught
        show ?thesis
          by (rule tagger_killed [OF Some False g Uncaught])
            (simp add: process_unfold save_tag_index_unfold save_def Some False Raises Uncaught)
      next
        case tr: Raises
        show ?thesis
          by (rule tagger_raised [OF Some False g tr])
            (simp add: process_unfold save_tag_index_unfold save_def Some False Raises tr)
      next
        case (Returns lbls)
        show ?thesis
          by (rule tagged [OF Some False g Returns])
            (simp add: process_unfold save_tag_index_unfold save_def Some False Raises Returns)
      qed
    next
      case (Returns v)
      then have g: "generate_embedding e t = (case Some v of None \<Rightarrow> Raises | Some v \<Rightarrow> Returns v)"
        by simp
      show ?thesis
      proof (cases "auto_tag e t None (3 / 10)")
        case Uncaught
        show ?thesis
          by (rule tagger_killed [OF Some False g Uncaught])
            (simp add: process_unfold save_tag_index_unfold save_def Some False Returns Uncaught)
      next
        case Raises
        show ?thesis
          by (rule tagger_raised [OF Some False g Raises])
            (simp add: process_unfold save_tag_index_unfold save_def Some False Returns Raises)
      next
        case tr: (Returns lbls)
        show ?thesis
          by (rule tagged [OF Some False g tr])
            (simp add: process_unfold save_tag_index_unfold save_def Some False Returns tr)
      qed
    qed
  qed
qed

lemma gather_returned: "gather f srcs acc = Some cs \<Longrightarrow> cs = acc @ returned f srcs"
proof (induction srcs arbitrary: acc)
  case Nil
  then show ?case by (simp add: returned_def map_filter_simps)
next
  case (Cons src srcs)
  show ?case
  proof (cases "f src")
    case (Returns t)
    with Cons.prems have "gather f srcs (acc @ [t]) = Some cs" by simp
    from Cons.IH [OF this] Returns show ?thesis by (simp add: returned_def map_filter_simps)
  next
    case Raises
    with Cons.prems have "gather f srcs acc = Some cs" by simp
    from Cons.IH [OF this] Raises show ?thesis by (simp add: returned_def map_filter_simps)
  next
    case Uncaught
    with Cons.prems show ?thesis by simp
  qed
qed

lemma gather_total: "\<forall>src. f src \<noteq> Uncaught \<Longrightarrow> \<exists>cs. gather f srcs acc = Some cs"
proof (induction srcs arbitrary: acc)
  case Nil
  show ?case by simp
next
  case (Cons src srcs)
  from Cons.prems have "f src \<noteq> Uncaught" by blast
  then show ?case using Cons.IH [OF Cons.prems] by (cases "f src") auto
qed

lemma gathered_text_returned:
  assumes "gathered_text e s bid = Some t"
  shows "t = strip (join [CHR 0x0A]
                (returned (extract_text_from_url e) (links_all s bid)
                 @ returned (extract_text_from_file e) (files_all s bid)))"
proof -
  from assms obtain c0 cs
    where a: "gather (extract_text_from_url e) (links_all s bid) [] = Some c0"
      and b: "gather (extract_text_from_file e) (files_all s bid) c0 = Some cs"
      and t: "t = strip (join [CHR 0x0A] cs)"
    by (auto simp: gathered_text_def gather_chunks_def split: option.splits)
  from gather_returned [OF a] gather_returned [OF b] t show ?thesis by simp
qed

lemma gathered_text_total:
  assumes "\<forall>src. extract_text_from_url e src \<noteq> Uncaught"
    and "\<forall>src. extract_text_from_file e src \<noteq> Uncaught"
  shows "\<exists>t. gathered_text e s bid = Some t"
proof -
  obtain c0 where a: "gather (extract_text_from_url e) (links_all s bid) [] = Some c0"
    using gather_total [OF assms(1)] by blast
  obtain cs where "gather (extract_text_from_file e) (files_all s bid) c0 = Some cs"
    using gather_total [OF assms(2)] by blast
  with a show ?thesis by (simp add: gathered_text_def gather_chunks_def)
qed

lemma tag_fold_rows:
  "set (bookmark_tag_rows (fold (\<lambda>lbl s. tags_add bid lbl (get_or_create lbl s)) lbls s))
     = set (bookmark_tag_rows s) \<union> {bid} \<times> set lbls"
  by (induction lbls arbitrary: s) (auto simp: tags_add_def get_or_create_def)

subsection \<open>Example runs\<close>

lemma killed_run_eval:
  "process_bookmark env_tagger_killed bookmark0 store0 =
     (Propagated,
      \<lparr>obj = \<lparr>bm_id = 7, bm_text = ''hello'', bm_embedding = Some [1, 0]\<rparr>,
       st = \<lparr>bookmark_rows = [7 \<mapsto> (''hello'', Some [1, 0])],
             link_rows = [(7, ''http://a'')],
             file_rows = [],
             tag_rows = [],
             bookmark_tag_rows = [],
             vector_store = fresh_disk\<rparr>,
       calls = [EmbedderCalled ''hello'', BookmarkSaved, TaggerCalled ''hello'']\<rparr>)"
  by (simp add: pipeline_defs env_tagger_killed_def env_ok_def bookmark0_def store0_def)


lemma embedder_killed_run_eval:
  "process_bookmark env_embedder_killed bookmark0 store0 =
     (Propagated,
      \<lparr>obj = \<lparr>bm_id = 7, bm_text = ''hello'', bm_embedding = None\<rparr>,
       st = store0,
       calls = [EmbedderCalled ''hello'']\<rparr>)"
  by (simp add: pipeline_defs env_embedder_killed_def env_ok_def bookmark0_def store0_def)

lemma gone_run_eval:
  "process_bookmark env_ok bookmark_gone store_gone =
     (Completed,
      \<lparr>obj = \<lparr>bm_id = 7, bm_text = [], bm_embedding = Some [1, 0]\<rparr>,
       st = \<lparr>bookmark_rows = [7 \<mapsto> ([], Some [1, 0])],
             link_rows = [(7, ''http://gone'')],
             file_rows = [],
             tag_rows = [],
             bookmark_tag_rows = [],
             vector_store = \<lparr>index_file = Some \<lparr>index_d = 2, xb = [[F32 1, F32 0]]\<rparr>,
                             map_file = Some [''0'' \<mapsto> 7]\<rparr>\<rparr>,
       calls = [BookmarkSaved]\<rparr>)"
  by (simp add: pipeline_defs faiss_defs env_ok_def bookmark_gone_def store_gone_def str_int_0
      float32_of_small)


subsection \<open>Where the save stands\<close>

text \<open>
  C6, as the code has it. The row of the bookmark (text and embedding) is written by one
  save, which stands after the embedding block and before the tagging and index blocks:
  a run that returns made the calls Embedder, save, Tagger in this order (the save alone
  when no text was gathered). An invocation that is ended before the save leaves the
  database and the files exactly as they were. Once the save is made, the row holds the
  new text and embedding, also when the invocation is ended afterwards.
\<close>

theorem save_placement:
  assumes "process_bookmark e b s = (stat, r)"
  shows "length (filter (\<lambda>c. c = BookmarkSaved) (calls r)) \<le> 1
       \<and> (stat = Completed \<longrightarrow>
            (\<exists>t. gathered_text e s (bm_id b) = Some t
               \<and> calls r = (if t = [] then [BookmarkSaved]
                            else [EmbedderCalled t, BookmarkSaved, TaggerCalled t])))
       \<and> (BookmarkSaved \<notin> set (calls r) \<longrightarrow> stat = Propagated \<and> st r = s)
       \<and> (BookmarkSaved \<in> set (calls r) \<longrightarrow>
            bookmark_rows (st r)
              = (bookmark_rows s)(bm_id b \<mapsto> (bm_text (obj r), bm_embedding (obj r))))"
proof (cases rule: process_cases [of e s b])
  case extraction_killed
  with assms show ?thesis by auto
next
  case no_text
  with assms show ?thesis by (auto simp: faiss_stage_simps)
next
  case (embedder_killed t)
  with assms show ?thesis by auto
next
  case (tagger_killed t emb)
  with assms show ?thesis by auto
next
  case (tagger_raised t emb)
  with assms show ?thesis by (auto simp: faiss_stage_simps)
next
  case (tagged t emb lbls)
  with assms show ?thesis by (auto simp: faiss_stage_simps tag_fold_bookmark_rows)
qed

theorem save_placement_witness:
  "process_bookmark env_tagger_killed bookmark0 store0
     = (Propagated,
        \<lparr>obj = \<lparr>bm_id = 7, bm_text = ''hello'', bm_embedding = Some [1, 0]\<rparr>,
         st = store0\<lparr>bookmark_rows := (bookmark_rows store0)(7 \<mapsto> (''hello'', Some [1, 0]))\<rparr>,
         calls = [EmbedderCalled ''hello'', BookmarkSaved, TaggerCalled ''hello'']\<rparr>)
   \<and> fst (process_bookmark env_ok bookmark0 store0) = Completed
   \<and> calls (snd (process_bookmark env_ok bookmark0 store0))
       = [EmbedderCalled ''hello'', BookmarkSaved, TaggerCalled ''hello'']
   \<and> fst (process_bookmark env_embedder_killed bookmark0 store0) = Propagated
   \<and> BookmarkSaved \<notin> set (calls (snd (process_bookmark env_embedder_killed bookmark0 store0)))
   \<and> st (snd (process_bookmark env_embedder_killed bookmark0 store0)) = store0"
proof -
  have k: "process_bookmark env_tagger_killed bookmark0 store0
     = (Propagated,
        \<lparr>obj = \<lparr>bm_id = 7, bm_text = ''hello'', bm_embedding = Some [1, 0]\<rparr>,
         st = store0\<lparr>bookmark_rows := (bookmark_rows store0)(7 \<mapsto> (''hello'', Some [1, 0]))\<rparr>,
         calls = [EmbedderCalled ''hello'', BookmarkSaved, TaggerCalled ''hello'']\<rparr>)"
    by (simp add: killed_run_eval) (simp add: store0_def)
  from save_placement [OF k] save_placement [OF processed_once_eval]
    save_placement [OF embedder_killed_run_eval] k
  show ?thesis by (simp add: processed_once_eval embedder_killed_run_eval)
qed

text \<open>
  The claim C6 itself fails: when the classifier ends the process on the example
  bookmark, the invocation fails outright and the row of the bookmark, empty before,
  holds the new text and embedding.
\<close>

theorem killed_after_save_keeps_row:
  "fst (process_bookmark env_tagger_killed bookmark0 store0) = Propagated
   \<and> bookmark_rows store0 7 = Some ([], None)
   \<and> bookmark_rows (st (snd (process_bookmark env_tagger_killed bookmark0 store0))) 7
       = Some (''hello'', Some [1, 0])"
  by (simp add: killed_run_eval) (simp add: store0_def)

subsection \<open>Which stages are called\<close>




subsection \<open>The stored text\<close>

text \<open>
  What a run that returns has done to the text and the embedding. The text of the
  bookmark is the stripped newline-join of the chunks whose extraction returned, links
  first, and the save has written it over the earlier text together with the embedding
  of the instance; and the run returns whenever no call ends the process. When that
  text is empty, the Embedder is not called and no statement assigns the embedding: the
  instance keeps the value it had before the run, which is written again and passed to
  the index block again.
\<close>

theorem text_overwritten:
  "(process_bookmark e b s = (Completed, r) \<longrightarrow>
      gathered_text e s (bm_id b) = Some (bm_text (obj r))
    \<and> bm_text (obj r)
        = strip (join [CHR 0x0A]
            (returned (extract_text_from_url e) (links_all s (bm_id b))
             @ returned (extract_text_from_file e) (files_all s (bm_id b))))
    \<and> bookmark_rows (st r) (bm_id b) = Some (bm_text (obj r), bm_embedding (obj r))
    \<and> (bm_text (obj r) = [] \<longrightarrow>
          bm_embedding (obj r) = bm_embedding b
        \<and> calls r = [BookmarkSaved]
        \<and> vector_store (st r)
            = index_bookmark (bm_id b) (bm_embedding b) (vector_store s)))
   \<and> ((\<forall>src. extract_text_from_url e src \<noteq> Uncaught)
      \<and> (\<forall>src. extract_text_from_file e src \<noteq> Uncaught)
      \<and> (\<forall>t. encode e t \<noteq> Uncaught)
      \<and> (\<forall>t ls. clf e t ls \<noteq> Uncaught) \<longrightarrow>
        fst (process_bookmark e b s) = Completed)"
proof (intro conjI impI)
  assume a: "process_bookmark e b s = (Completed, r)"
  have all: "gathered_text e s (bm_id b) = Some (bm_text (obj r))
      \<and> bookmark_rows (st r) (bm_id b) = Some (bm_text (obj r), bm_embedding (obj r))
      \<and> (bm_text (obj r) = [] \<longrightarrow>
            bm_embedding (obj r) = bm_embedding b
          \<and> calls r = [BookmarkSaved]
          \<and> vector_store (st r)
              = index_bookmark (bm_id b) (bm_embedding b) (vector_store s))"
  proof (cases rule: process_cases [of e s b])
    case extraction_killed
    with a show ?thesis by simp
  next
    case no_text
    with a show ?thesis by (auto simp: faiss_stage_simps)
  next
    case (embedder_killed t)
    with a show ?thesis by simp
  next
    case (tagger_killed t emb)
    with a show ?thesis by simp
  next
    case (tagger_raised t emb)
    with a show ?thesis by (auto simp: faiss_stage_simps)
  next
    case (tagged t emb lbls)
    with a show ?thesis by (auto simp: faiss_stage_simps tag_fold_bookmark_rows)
  qed
  then have t: "gathered_text e s (bm_id b) = Some (bm_text (obj r))"
    and row: "bookmark_rows (st r) (bm_id b) = Some (bm_text (obj r), bm_embedding (obj r))"
    and emp: "bm_text (obj r) = [] \<Longrightarrow>
          bm_embedding (obj r) = bm_embedding b
        \<and> calls r = [BookmarkSaved]
        \<and> vector_store (st r)
            = index_bookmark (bm_id b) (bm_embedding b) (vector_store s)"
    by blast+
  show "gathered_text e s (bm_id b) = Some (bm_text (obj r))" by (rule t)
  show "bm_text (obj r)
        = strip (join [CHR 0x0A]
            (returned (extract_text_from_url e) (links_all s (bm_id b))
             @ returned (extract_text_from_file e) (files_all s (bm_id b))))"
    by (rule gathered_text_returned [OF t])
  show "bookmark_rows (st r) (bm_id b) = Some (bm_text (obj r), bm_embedding (obj r))"
    by (rule row)
  show "bm_embedding (obj r) = bm_embedding b" if "bm_text (obj r) = []"
    using emp [OF that] by blast
  show "calls r = [BookmarkSaved]" if "bm_text (obj r) = []"
    using emp [OF that] by blast
  show "vector_store (st r) = index_bookmark (bm_id b) (bm_embedding b) (vector_store s)"
    if "bm_text (obj r) = []"
    using emp [OF that] by blast
next
  assume h: "(\<forall>src. extract_text_from_url e src \<noteq> Uncaught)
      \<and> (\<forall>src. extract_text_from_file e src \<noteq> Uncaught)
      \<and> (\<forall>t. encode e t \<noteq> Uncaught)
      \<and> (\<forall>t ls. clf e t ls \<noteq> Uncaught)"
  then obtain t where t: "gathered_text e s (bm_id b) = Some t"
    using gathered_text_total [of e s "bm_id b"] by blast
  have g: "generate_embedding e x \<noteq> Uncaught" for x
    using h by (simp add: generate_embedding_def)
  have c: "auto_tag e x None (3 / 10) \<noteq> Uncaught" for x
  proof -
    from h have "clf e x default_labels \<noteq> Uncaught" by blast
    then show ?thesis by (cases "clf e x default_labels") (auto simp: auto_tag_def)
  qed
  show "fst (process_bookmark e b s) = Completed"
  proof (cases rule: process_cases [of e s b])
    case extraction_killed
    with t show ?thesis by simp
  next
    case no_text
    then show ?thesis by simp
  next
    case (embedder_killed t)
    with g show ?thesis by blast
  next
    case (tagger_killed t emb)
    with c show ?thesis by blast
  next
    case (tagger_raised t emb)
    then show ?thesis by simp
  next
    case (tagged t emb lbls)
    then show ?thesis by simp
  qed
qed

theorem text_overwritten_witness:
  "process_bookmark env_ok bookmark_gone store_gone
     = (Completed, snd (process_bookmark env_ok bookmark_gone store_gone))
   \<and> bm_text (obj (snd (process_bookmark env_ok bookmark_gone store_gone))) = []
   \<and> bookmark_rows (st (snd (process_bookmark env_ok bookmark_gone store_gone))) 7
       = Some ([], bm_embedding bookmark_gone)
   \<and> calls (snd (process_bookmark env_ok bookmark_gone store_gone)) = [BookmarkSaved]
   \<and> (\<forall>src. extract_text_from_url env_ok src \<noteq> Uncaught)
   \<and> (\<forall>src. extract_text_from_file env_ok src \<noteq> Uncaught)
   \<and> (\<forall>t. encode env_ok t \<noteq> Uncaught)
   \<and> (\<forall>t ls. clf env_ok t ls \<noteq> Uncaught)
   \<and> fst (process_bookmark env_ok bookmark_gone store_gone) = Completed"
proof -
  have p: "process_bookmark env_ok bookmark_gone store_gone
     = (Completed, snd (process_bookmark env_ok bookmark_gone store_gone))"
    by (simp add: gone_run_eval)
  have h: "(\<forall>src. extract_text_from_url env_ok src \<noteq> Uncaught)
      \<and> (\<forall>src. extract_text_from_file env_ok src \<noteq> Uncaught)
      \<and> (\<forall>t. encode env_ok t \<noteq> Uncaught)
      \<and> (\<forall>t ls. clf env_ok t ls \<noteq> Uncaught)"
    by (simp add: env_ok_def)
  have i: "bm_id bookmark_gone = 7" by (simp add: bookmark_gone_def)
  have t: "bm_text (obj (snd (process_bookmark env_ok bookmark_gone store_gone))) = []"
    by (simp add: gone_run_eval)
  from text_overwritten [of env_ok bookmark_gone store_gone
      "snd (process_bookmark env_ok bookmark_gone store_gone)"] p h t
  show ?thesis by (simp add: i)
qed

text \<open>
  C10, at an input where the code departs from it. The example bookmark has an embedding
  from an earlier run and its only link can no longer be fetched. Processing it again
  returns and writes the empty text, as the claim says; but the embedding is not unset:
  the earlier vector is written again with the empty text and is indexed once more.
  (When the Embedder raises, the code does set the embedding to null; when there is no
  text to embed, no statement does.)
\<close>

theorem stale_embedding_kept:
  "returned (extract_text_from_url env_ok) (links_all store_gone 7) = []
   \<and> files_all store_gone 7 = []
   \<and> fst (process_bookmark env_ok bookmark_gone store_gone) = Completed
   \<and> bookmark_rows (st (snd (process_bookmark env_ok bookmark_gone store_gone))) 7
       = Some ([], Some [1, 0])
   \<and> vec_map_of (vector_store (st (snd (process_bookmark env_ok bookmark_gone store_gone))))
        ''0'' = Some 7"
  by (simp add: gone_run_eval)
    (simp add: returned_def map_filter_simps links_all_def files_all_def store_gone_def
      env_ok_def vec_map_of_def load_faiss_def)

subsection \<open>Tagging again\<close>

lemma tag_step_absorbed:
  "lbl \<in> set (tag_rows s) \<Longrightarrow> (bid, lbl) \<in> set (bookmark_tag_rows s) \<Longrightarrow>
     tags_add bid lbl (get_or_create lbl s) = s"
  by (simp add: tags_add_def get_or_create_def)

lemma tag_fold_absorbed:
  "set lbls \<subseteq> set (tag_rows s) \<Longrightarrow> {bid} \<times> set lbls \<subseteq> set (bookmark_tag_rows s) \<Longrightarrow>
     fold (\<lambda>lbl s. tags_add bid lbl (get_or_create lbl s)) lbls s = s"
  by (induction lbls) (simp_all add: tag_step_absorbed)

lemma tag_fold_tag_rows:
  "set (tag_rows (fold (\<lambda>lbl s. tags_add bid lbl (get_or_create lbl s)) lbls s))
     = set (tag_rows s) \<union> set lbls"
  by (induction lbls arbitrary: s) (auto simp: tags_add_def get_or_create_def)

lemma tag_fold_appends:
  "\<exists>new. bookmark_tag_rows (fold (\<lambda>lbl s. tags_add bid lbl (get_or_create lbl s)) lbls s)
           = bookmark_tag_rows s @ new
        \<and> distinct new \<and> set new \<inter> set (bookmark_tag_rows s) = {}"
proof (induction lbls arbitrary: s)
  case Nil
  show ?case by simp
next
  case (Cons lbl lbls)
  let ?s1 = "tags_add bid lbl (get_or_create lbl s)"
  obtain n1 where n1: "bookmark_tag_rows ?s1 = bookmark_tag_rows s @ n1"
    and d1: "distinct n1" and i1: "set n1 \<inter> set (bookmark_tag_rows s) = {}"
    by (cases "(bid, lbl) \<in> set (bookmark_tag_rows s)")
      (auto simp: tags_add_def get_or_create_def)
  from Cons.IH [of ?s1] obtain n2
    where n2: "bookmark_tag_rows (fold (\<lambda>lbl s. tags_add bid lbl (get_or_create lbl s)) lbls ?s1)
                 = bookmark_tag_rows ?s1 @ n2"
      and d2: "distinct n2" and i2: "set n2 \<inter> set (bookmark_tag_rows ?s1) = {}"
    by blast
  have "bookmark_tag_rows (fold (\<lambda>lbl s. tags_add bid lbl (get_or_create lbl s)) (lbl # lbls) s)
          = bookmark_tag_rows s @ (n1 @ n2)"
    using n1 n2 by simp
  moreover have "distinct (n1 @ n2)" using d1 d2 i2 n1 by auto
  moreover have "set (n1 @ n2) \<inter> set (bookmark_tag_rows s) = {}" using i1 i2 n1 by auto
  ultimately show ?case by blast
qed

lemma tagging_stage_cases:
  obtains
    (skipped) "t = [] \<or> auto_tag e t None (3 / 10) = Raises
                 \<or> auto_tag e t None (3 / 10) = Uncaught"
      "st (snd (tagging_stage e t r)) = st r"
  | (tagged) lbls where "t \<noteq> []" "auto_tag e t None (3 / 10) = Returns lbls"
      "st (snd (tagging_stage e t r))
         = fold (\<lambda>lbl s. tags_add (bm_id (obj r)) lbl (get_or_create lbl s)) lbls (st r)"
proof (cases "t = []")
  case True
  then show ?thesis using skipped by (simp add: tagging_stage_def)
next
  case False
  show ?thesis
  proof (cases "auto_tag e t None (3 / 10)")
    case (Returns lbls)
    with False show ?thesis using tagged by (simp add: tagging_stage_def Let_def)
  next
    case Raises
    with False show ?thesis using skipped by (auto simp: tagging_stage_def Let_def)
  next
    case Uncaught
    with False show ?thesis using skipped by (auto simp: tagging_stage_def Let_def)
  qed
qed

lemma tag_fold_other_rows:
  "link_rows (fold (\<lambda>lbl s. tags_add bid lbl (get_or_create lbl s)) lbls s) = link_rows s"
  "file_rows (fold (\<lambda>lbl s. tags_add bid lbl (get_or_create lbl s)) lbls s) = file_rows s"
  by (induction lbls arbitrary: s) (simp_all add: tags_add_def get_or_create_def)

lemma tag_step_row_update:
  "tags_add bid lbl (get_or_create lbl (s\<lparr>bookmark_rows := x\<rparr>))
     = (tags_add bid lbl (get_or_create lbl s))\<lparr>bookmark_rows := x\<rparr>"
  by (simp add: tags_add_def get_or_create_def)

lemma tag_fold_row_update:
  "fold (\<lambda>lbl s. tags_add bid lbl (get_or_create lbl s)) lbls (s\<lparr>bookmark_rows := x\<rparr>)
     = (fold (\<lambda>lbl s. tags_add bid lbl (get_or_create lbl s)) lbls s)\<lparr>bookmark_rows := x\<rparr>"
  by (induction lbls arbitrary: s) (simp_all add: tag_step_row_update)

lemma process_tags:
  "tag_rows (st (snd (process_bookmark e b s)))
     = tag_rows (fold (\<lambda>lbl s. tags_add (bm_id b) lbl (get_or_create lbl s))
                  (labels_merged e b s) s)
   \<and> bookmark_tag_rows (st (snd (process_bookmark e b s)))
     = bookmark_tag_rows (fold (\<lambda>lbl s. tags_add (bm_id b) lbl (get_or_create lbl s))
                           (labels_merged e b s) s)
   \<and> link_rows (st (snd (process_bookmark e b s))) = link_rows s
   \<and> file_rows (st (snd (process_bookmark e b s))) = file_rows s
   \<and> bm_id (obj (snd (process_bookmark e b s))) = bm_id b"
proof (cases rule: process_cases [of e s b])
  case extraction_killed
  then show ?thesis by (simp add: labels_merged_def)
next
  case no_text
  then show ?thesis by (simp add: labels_merged_def faiss_stage_def)
next
  case (embedder_killed t)
  then show ?thesis by (simp add: labels_merged_def)
next
  case (tagger_killed t emb)
  then show ?thesis by (cases emb) (simp_all add: labels_merged_def)
next
  case (tagger_raised t emb)
  then show ?thesis by (cases emb) (simp_all add: labels_merged_def faiss_stage_def)
next
  case (tagged t emb lbls)
  then show ?thesis
    by (cases emb)
      (simp_all add: labels_merged_def faiss_stage_def tag_fold_row_update tag_fold_other_rows)
qed

lemma gathered_text_same_rows:
  "link_rows s' = link_rows s \<Longrightarrow> file_rows s' = file_rows s \<Longrightarrow>
     gathered_text e s' bid = gathered_text e s bid"
  by (simp add: gathered_text_def gather_chunks_def links_all_def files_all_def
      cong: option.case_cong)

lemma labels_merged_again:
  "labels_merged e (obj (snd (process_bookmark e b s))) (st (snd (process_bookmark e b s)))
     = labels_merged e b s"
proof -
  note p = process_tags [of e b s]
  have "gathered_text e (st (snd (process_bookmark e b s))) (bm_id b)
          = gathered_text e s (bm_id b)"
    using p by (blast intro: gathered_text_same_rows)
  moreover have "bm_id (obj (snd (process_bookmark e b s))) = bm_id b" using p by blast
  ultimately show ?thesis by (simp only: labels_merged_def)
qed

lemma process_tags_again:
  "bookmark_tag_rows
     (st (snd (process_bookmark e (obj (snd (process_bookmark e b s)))
                 (st (snd (process_bookmark e b s))))))
     = bookmark_tag_rows (st (snd (process_bookmark e b s)))"
proof -
  let ?r1 = "snd (process_bookmark e b s)"
  let ?step = "\<lambda>lbl s. tags_add (bm_id b) lbl (get_or_create lbl s)"
  let ?L = "labels_merged e b s"
  note p1 = process_tags [of e b s]
  have id: "bm_id (obj ?r1) = bm_id b" using p1 by blast
  have a: "set ?L \<subseteq> set (tag_rows (st ?r1))" using p1 by (simp add: tag_fold_tag_rows)
  have b: "{bm_id b} \<times> set ?L \<subseteq> set (bookmark_tag_rows (st ?r1))"
    using p1 by (simp add: tag_fold_rows)
  have "fold ?step ?L (st ?r1) = st ?r1" by (rule tag_fold_absorbed [OF a b])
  then show ?thesis
    using process_tags [of e "obj ?r1" "st ?r1"] by (simp add: labels_merged_again id)
qed

text \<open>
  C9. Running the tagging block a second time on the same text leaves the database as
  the first run left it. The first run keeps the rows between the bookmark and its tags
  that were there and appends, without repetition, only rows that were not there: the
  rows afterwards are the union of the rows before and the labels returned, and they
  are without duplicates when they were before. Processing the bookmark a second time
  leaves its tag rows as the first processing left them.
\<close>

theorem retagging_fixed_point:
  "st (snd (tagging_stage e t (snd (tagging_stage e t r)))) = st (snd (tagging_stage e t r))
   \<and> (\<exists>new. bookmark_tag_rows (st (snd (tagging_stage e t r)))
               = bookmark_tag_rows (st r) @ new
           \<and> distinct new \<and> set new \<inter> set (bookmark_tag_rows (st r)) = {})
   \<and> (distinct (bookmark_tag_rows (st r)) \<longrightarrow>
        distinct (bookmark_tag_rows (st (snd (tagging_stage e t r)))))
   \<and> (t \<noteq> [] \<and> auto_tag e t None (3 / 10) = Returns lbls \<longrightarrow>
        set (bookmark_tag_rows (st (snd (tagging_stage e t r))))
          = set (bookmark_tag_rows (st r)) \<union> {bm_id (obj r)} \<times> set lbls)
   \<and> bookmark_tag_rows
        (st (snd (process_bookmark e (obj (snd (process_bookmark e b s)))
                    (st (snd (process_bookmark e b s))))))
       = bookmark_tag_rows (st (snd (process_bookmark e b s)))"
proof -
  let ?r1 = "snd (tagging_stage e t r)"
  let ?step = "\<lambda>lbl s. tags_add (bm_id (obj r)) lbl (get_or_create lbl s)"
  have o: "obj ?r1 = obj r" by (rule tagging_stage_obj)
  have again: "st (snd (tagging_stage e t ?r1)) = st ?r1"
  proof (cases rule: tagging_stage_cases [of t e r])
    case skipped
    then show ?thesis by (cases rule: tagging_stage_cases [of t e ?r1]) auto
  next
    case (tagged lbls)
    have a: "set lbls \<subseteq> set (tag_rows (st ?r1))" by (simp add: tagged(3) tag_fold_tag_rows)
    have b: "{bm_id (obj r)} \<times> set lbls \<subseteq> set (bookmark_tag_rows (st ?r1))"
      by (simp add: tagged(3) tag_fold_rows)
    have "fold ?step lbls (st ?r1) = st ?r1" by (rule tag_fold_absorbed [OF a b])
    then show ?thesis
      using tagged(1,2) by (cases rule: tagging_stage_cases [of t e ?r1]) (auto simp: o)
  qed
  have app: "\<exists>new. bookmark_tag_rows (st ?r1) = bookmark_tag_rows (st r) @ new
           \<and> distinct new \<and> set new \<inter> set (bookmark_tag_rows (st r)) = {}"
  proof (cases rule: tagging_stage_cases [of t e r])
    case skipped
    then show ?thesis by simp
  next
    case (tagged lbls)
    then show ?thesis using tag_fold_appends [of "bm_id (obj r)" lbls "st r"] by simp
  qed
  have dis: "distinct (bookmark_tag_rows (st ?r1))" if "distinct (bookmark_tag_rows (st r))"
    using app that by auto
  have uni: "set (bookmark_tag_rows (st ?r1))
          = set (bookmark_tag_rows (st r)) \<union> {bm_id (obj r)} \<times> set lbls"
    if "t \<noteq> [] \<and> auto_tag e t None (3 / 10) = Returns lbls"
    using that
    by (cases rule: tagging_stage_cases [of t e r]) (auto simp: tag_fold_rows)
  from again app dis uni process_tags_again [of e b s] show ?thesis by blast
qed

theorem retagging_fixed_point_witness:
  "bookmark_tag_rows (st processed_once) = [(7, ''python'')]
   \<and> distinct (bookmark_tag_rows store0)
   \<and> ''hello'' \<noteq> []
   \<and> auto_tag env_ok ''hello'' None (3 / 10) = Returns [''python'']
   \<and> st (snd (tagging_stage env_ok ''hello'' processed_once)) = st processed_once
   \<and> bookmark_tag_rows (st processed_twice) = [(7, ''python'')]"
proof -
  have a: "auto_tag env_ok ''hello'' None (3 / 10) = Returns [''python'']"
    by (simp add: auto_tag_def env_ok_def)
  have r1: "bookmark_tag_rows (st processed_once) = [(7, ''python'')]"
    by (simp add: processed_once_def processed_once_eval)
  have r2: "bookmark_tag_rows (st processed_twice) = [(7, ''python'')]"
    by (simp add: processed_twice_eval)
  have d: "distinct (bookmark_tag_rows store0)" by (simp add: store0_def)
  have f: "st (snd (tagging_stage env_ok ''hello'' processed_once)) = st processed_once"
    by (simp add: processed_once_def processed_once_eval tagging_stage_def a tags_add_def
        get_or_create_def)
  from retagging_fixed_point [of env_ok "''hello''" processed_once "[''python'']" bookmark0 store0]
    a r1 r2 d f
  show ?thesis by simp
qed

end
